theory Spec2Isabelle
  imports Main "HOL-Library.Word"
begin

unbundle bit_operations_syntax

section \<open>Machine model\<close>

text \<open>
  The pool of \<^verbatim>\<open>LockFreeMemoryPool.hpp\<close> is modelled on a 64-bit byte-addressed machine
  (LP64, little-endian): a pointer and a \<^verbatim>\<open>std::size_t\<close> are 64-bit words whose arithmetic
  wraps, memory is a function from addresses to bytes, and \<^verbatim>\<open>nullptr\<close> is the address 0.
  A thread is named by a natural number.
\<close>

type_synonym addr = "64 word"
type_synonym size_t = "64 word"
type_synonym byte = "8 word"
type_synonym memory = "addr \<Rightarrow> byte"
type_synonym tid = nat

abbreviation nullptr :: addr where
  "nullptr \<equiv> 0"

text \<open>\<^verbatim>\<open>constexpr std::size_t CACHE_LINE = 64;\<close>\<close>

definition CACHE_LINE :: size_t where
  "CACHE_LINE = 64"

text \<open>
  \<^verbatim>\<open>struct FreeNode { FreeNode* next; };\<close> is one pointer: 8 bytes. Byte \<open>k\<close> of a pointer
  value, and a pointer read back from its bytes (least significant byte first).
\<close>

definition sizeof_FreeNode :: size_t where
  "sizeof_FreeNode = 8"

definition ptr_byte :: "addr \<Rightarrow> nat \<Rightarrow> byte" where
  "ptr_byte p k = ucast (drop_bit (8 * k) p)"

fun le_word :: "byte list \<Rightarrow> addr" where
  "le_word [] = 0"
| "le_word (b # bs) = ucast b OR push_bit 8 (le_word bs)"

text \<open>
  \<^verbatim>\<open>node->next = p\<close> writes the eight bytes at \<open>a, a + 1, .., a + 7\<close> (the word difference
  \<open>x - a\<close> is below 8 exactly for these addresses); \<^verbatim>\<open>node->next\<close> reads them.
\<close>

definition store_ptr :: "memory \<Rightarrow> addr \<Rightarrow> addr \<Rightarrow> memory" where
  "store_ptr m a p = (\<lambda>x. if x - a < sizeof_FreeNode then ptr_byte p (unat (x - a)) else m x)"

definition load_ptr :: "memory \<Rightarrow> addr \<Rightarrow> addr" where
  "load_ptr m a = le_word (map (\<lambda>k. m (a + of_nat k)) [0..<unat sizeof_FreeNode])"

section \<open>The pool\<close>

text \<open>
  The state outside a pool object: the memory, the \<^verbatim>\<open>static thread_local FreeNode* _localCache\<close>
  of the template instantiation (one pointer per thread, shared by every pool object of the
  same element type and capacity), and the blocks obtained from \<^verbatim>\<open>std::aligned_alloc\<close> that
  have not been given to \<^verbatim>\<open>std::free\<close> yet, each with its requested size.
\<close>

record world =
  mem :: memory
  localCache :: "tid \<Rightarrow> addr"
  blocks :: "addr \<rightharpoonup> size_t"

text \<open>The non-static data members of a pool object.\<close>

record pool =
  buffer :: addr
  freeList :: addr

datatype error = BadAlloc

text \<open>
  The template parameters are arguments of the model: \<open>sizeofT\<close> is \<^verbatim>\<open>sizeof(T)\<close> and
  \<open>poolSize\<close> the capacity.

  \<^verbatim>\<open>static constexpr std::size_t total_bytes() noexcept { return poolSize * sizeof(T); }\<close>
\<close>

definition total_bytes :: "size_t \<Rightarrow> size_t \<Rightarrow> size_t" where
  "total_bytes sizeofT poolSize = poolSize * sizeofT"

text \<open>
  The size the constructor asks for:
  \<^verbatim>\<open>size = total_bytes(); if (size % CACHE_LINE != 0) size += CACHE_LINE - (size % CACHE_LINE);\<close>
\<close>

definition alloc_size :: "size_t \<Rightarrow> size_t \<Rightarrow> size_t" where
  "alloc_size sizeofT poolSize =
     (let size = total_bytes sizeofT poolSize
      in if size mod CACHE_LINE \<noteq> 0 then size + (CACHE_LINE - size mod CACHE_LINE) else size)"

text \<open>
  The constructor's loop
  \<^verbatim>\<open>for (i = 0; i < poolSize; ++i) { node = buffer + i * sizeof(T); node->next = head; head = node; }\<close>
  started at index \<open>i\<close> with the current memory and \<open>head\<close>.
\<close>

function build_free_list ::
  "size_t \<Rightarrow> size_t \<Rightarrow> addr \<Rightarrow> size_t \<Rightarrow> memory \<Rightarrow> addr \<Rightarrow> memory \<times> addr" where
  "build_free_list sizeofT poolSize buf i m head =
     (if i < poolSize
      then let node = buf + i * sizeofT
           in build_free_list sizeofT poolSize buf (i + 1) (store_ptr m node head) node
      else (m, head))"
  by pat_completeness auto
termination
proof (relation "measure (\<lambda>(sizeofT, poolSize, buf, i, m, head). unat poolSize - unat i)")
  show "wf (measure (\<lambda>(sizeofT, poolSize, buf, i, m, head). unat poolSize - unat i))"
    by simp
next
  fix sizeofT poolSize buf i :: "64 word" and m :: memory and head node :: addr
  assume "i < poolSize"
  then have "unat i < unat poolSize"
    by (simp add: word_less_nat_alt)
  moreover have "unat poolSize < 2 ^ LENGTH(64)"
    by (rule unsigned_less)
  ultimately have "unat i + unat (1 :: 64 word) < 2 ^ LENGTH(64)"
    by simp
  then have "unat (i + 1) = unat i + unat (1 :: 64 word)"
    by (simp only: unat_add_lem)
  with \<open>unat i < unat poolSize\<close> show
    "((sizeofT, poolSize, buf, i + 1, store_ptr m node head, node),
      (sizeofT, poolSize, buf, i, m, head))
       \<in> measure (\<lambda>(sizeofT, poolSize, buf, i, m, head). unat poolSize - unat i)"
    by simp
qed

declare build_free_list.simps [simp del]

text \<open>
  The constructor. \<^verbatim>\<open>std::aligned_alloc\<close> belongs to the C library, so it is an argument:
  a function from the requested alignment and size to the pointer it returns.
  A null result throws \<^verbatim>\<open>std::bad_alloc\<close>; otherwise the free list is built in the block
  and its head is published in \<^verbatim>\<open>freeList\<close>.
\<close>

definition LockFreeMemoryPool ::
  "size_t \<Rightarrow> size_t \<Rightarrow> (size_t \<Rightarrow> size_t \<Rightarrow> addr) \<Rightarrow> world \<Rightarrow> error + pool \<times> world" where
  "LockFreeMemoryPool sizeofT poolSize aligned_alloc w =
     (let size = alloc_size sizeofT poolSize;
          buf = aligned_alloc CACHE_LINE size
      in if buf = nullptr then Inl BadAlloc
         else let (m, head) = build_free_list sizeofT poolSize buf 0 (mem w) nullptr
              in Inr (\<lparr>buffer = buf, freeList = head\<rparr>,
                      w\<lparr>mem := m, blocks := (blocks w)(buf \<mapsto> size)\<rparr>))"


text \<open>
  \<^verbatim>\<open>freeList.compare_exchange_weak(head, next, ..)\<close> on the atomic's current value \<open>cur\<close>:
  it succeeds when \<open>cur\<close> equals the expected \<open>head\<close>, unless it fails spuriously (which the
  weak form may); on failure the expected value is reloaded from the atomic.
  The result is (success, new value of the atomic, new value of \<open>head\<close>).
\<close>

definition compare_exchange_weak :: "bool \<Rightarrow> addr \<Rightarrow> addr \<Rightarrow> addr \<Rightarrow> bool \<times> addr \<times> addr" where
  "compare_exchange_weak spurious cur head next =
     (if cur = head \<and> \<not> spurious then (True, next, head) else (False, cur, cur))"

text \<open>
  The slow path of \<^verbatim>\<open>allocate\<close>, \<^verbatim>\<open>while (head) { next = head->next; if (CAS) return head; }
  return nullptr;\<close>, run without interference from other threads. \<open>spur\<close> is the number of
  spurious failures the hardware produces before it lets a compare-exchange through.
  The result is (new \<^verbatim>\<open>freeList\<close>, returned pointer).
\<close>

function allocate_loop :: "nat \<Rightarrow> memory \<Rightarrow> addr \<Rightarrow> addr \<Rightarrow> addr \<times> addr" where
  "allocate_loop spur m fl head =
     (if head = nullptr then (fl, nullptr)
      else let next = load_ptr m head
           in if fst (compare_exchange_weak (0 < spur) fl head next)
              then (fst (snd (compare_exchange_weak (0 < spur) fl head next)), head)
              else allocate_loop (spur - 1) m
                     (fst (snd (compare_exchange_weak (0 < spur) fl head next)))
                     (snd (snd (compare_exchange_weak (0 < spur) fl head next))))"
  by pat_completeness auto
termination
  by (relation "measure (\<lambda>(spur, m, fl, head). 2 * spur + (if fl = head then 0 else 1))")
     (auto simp: compare_exchange_weak_def split: if_splits)

declare allocate_loop.simps [simp del]

text \<open>
  \<^verbatim>\<open>T* allocate() noexcept\<close>, called by thread \<open>t\<close>: the thread-local cache first, then the
  global free list. The result is (returned pointer, pool object, world).
\<close>

definition allocate :: "tid \<Rightarrow> nat \<Rightarrow> pool \<Rightarrow> world \<Rightarrow> addr \<times> pool \<times> world" where
  "allocate t spur p w =
     (if localCache w t \<noteq> nullptr
      then let n = localCache w t
           in (n, p, w\<lparr>localCache := (localCache w)(t := load_ptr (mem w) n)\<rparr>)
      else let (fl, r) = allocate_loop spur (mem w) (freeList p) (freeList p)
           in (r, p\<lparr>freeList := fl\<rparr>, w))"

text \<open>
  \<^verbatim>\<open>void deallocate(T* ptr) noexcept\<close>, called by thread \<open>t\<close>:
  \<^verbatim>\<open>node->next = _localCache; _localCache = node;\<close>
\<close>

definition deallocate :: "tid \<Rightarrow> addr \<Rightarrow> pool \<Rightarrow> world \<Rightarrow> pool \<times> world" where
  "deallocate t ptr p w =
     (p, w\<lparr>mem := store_ptr (mem w) ptr (localCache w t),
           localCache := (localCache w)(t := ptr)\<rparr>)"

section \<open>Slots, free chains and call sequences\<close>

text \<open>Slot \<open>i\<close> of a pool starts at \<^verbatim>\<open>buffer + i * sizeof(T)\<close>; a pool has \<open>poolSize\<close> slots.\<close>

definition slot :: "size_t \<Rightarrow> addr \<Rightarrow> nat \<Rightarrow> addr" where
  "slot sizeofT buf i = buf + of_nat i * sizeofT"

definition slots :: "size_t \<Rightarrow> size_t \<Rightarrow> addr \<Rightarrow> addr set" where
  "slots sizeofT poolSize buf = slot sizeofT buf ` {..<unat poolSize}"

text \<open>
  The free list that starts at \<open>h\<close> in memory \<open>m\<close>: \<open>is_chain m h xs\<close> says that following
  \<^verbatim>\<open>next\<close> from \<open>h\<close> visits exactly the nodes \<open>xs\<close>, in this order, and then reaches
  \<^verbatim>\<open>nullptr\<close>; \<open>chain_nodes m h\<close> is the set of nodes reachable from \<open>h\<close>.
\<close>

primrec is_chain :: "memory \<Rightarrow> addr \<Rightarrow> addr list \<Rightarrow> bool" where
  "is_chain m h [] = (h = nullptr)"
| "is_chain m h (x # xs) = (h = x \<and> x \<noteq> nullptr \<and> is_chain m (load_ptr m x) xs)"

inductive_set chain_nodes :: "memory \<Rightarrow> addr \<Rightarrow> addr set" for m :: memory and h :: addr where
  chain_head: "h \<noteq> nullptr \<Longrightarrow> h \<in> chain_nodes m h"
| chain_next: "a \<in> chain_nodes m h \<Longrightarrow> load_ptr m a \<noteq> nullptr \<Longrightarrow> load_ptr m a \<in> chain_nodes m h"

text \<open>
  Consecutive \<^verbatim>\<open>allocate\<close> calls, each by a thread \<open>t\<close> and with its number \<open>k\<close> of
  spurious compare-exchange failures; the returned pointers are collected in call order.
\<close>

fun allocate_seq :: "(tid \<times> nat) list \<Rightarrow> pool \<Rightarrow> world \<Rightarrow> addr list \<times> pool \<times> world" where
  "allocate_seq [] p w = ([], p, w)"
| "allocate_seq ((t, k) # cs) p w =
     (let (r, p', w') = allocate t k p w;
          (rs, p'', w'') = allocate_seq cs p' w'
      in (r # rs, p'', w''))"

text \<open>
  A sequence of calls on one pool, each call running to completion before the next starts.
  Beside the pool and the world, a run tracks the set \<open>held\<close> of addresses that \<^verbatim>\<open>allocate\<close>
  has returned and that have not been deallocated since: the slots in use. A call that
  breaks the caller's contract ends the run with \<open>None\<close>: \<^verbatim>\<open>deallocate\<close> of an address that is
  not held, and a write outside a held slot. \<open>UserWrite ptr off v\<close> is the caller storing the
  byte \<open>v\<close> at offset \<open>off\<close> of the slot \<open>ptr\<close> it holds (the object it keeps there).
\<close>

datatype call = Allocate tid nat | Deallocate tid addr | UserWrite addr size_t byte

fun step :: "size_t \<Rightarrow> call \<Rightarrow> pool \<times> world \<times> addr set \<Rightarrow> (pool \<times> world \<times> addr set) option" where
  "step sizeofT (Allocate t spur) (p, w, held) =
     (let (r, p', w') = allocate t spur p w
      in Some (p', w', if r = nullptr then held else insert r held))"
| "step sizeofT (Deallocate t ptr) (p, w, held) =
     (if ptr \<in> held
      then let (p', w') = deallocate t ptr p w in Some (p', w', held - {ptr})
      else None)"
| "step sizeofT (UserWrite ptr off v) (p, w, held) =
     (if ptr \<in> held \<and> off < sizeofT
      then Some (p, w\<lparr>mem := (mem w)(ptr + off := v)\<rparr>, held)
      else None)"

fun run :: "size_t \<Rightarrow> call list \<Rightarrow> pool \<times> world \<times> addr set \<Rightarrow> (pool \<times> world \<times> addr set) option" where
  "run sizeofT [] s = Some s"
| "run sizeofT (c # cs) s =
     (case step sizeofT c s of None \<Rightarrow> None | Some s' \<Rightarrow> run sizeofT cs s')"

text \<open>
  Distinct slots of a set \<open>S\<close> share no byte, and no slot is at the null address.
\<close>

definition separated :: "size_t \<Rightarrow> addr set \<Rightarrow> bool" where
  "separated sizeofT S \<longleftrightarrow>
     nullptr \<notin> S \<and>
     (\<forall>a\<in>S. \<forall>b\<in>S. a \<noteq> b \<longrightarrow>
        (\<forall>j<unat sizeofT. \<forall>k<unat sizeofT. a + of_nat j \<noteq> b + of_nat k))"

text \<open>
  The partition of the slot set \<open>S\<close>, with the nodes of the global list as \<open>gs\<close> and the nodes
  of thread \<open>t\<close>'s cache as \<open>cs t\<close>: every chain is a proper list without repetition, the
  chains and the held set are pairwise disjoint, and together they are \<open>S\<close>.
\<close>

definition pool_inv ::
  "addr set \<Rightarrow> pool \<Rightarrow> world \<Rightarrow> addr set \<Rightarrow> addr list \<Rightarrow> (tid \<Rightarrow> addr list) \<Rightarrow> bool" where
  "pool_inv S p w held gs cs \<longleftrightarrow>
     is_chain (mem w) (freeList p) gs \<and>
     (\<forall>t. is_chain (mem w) (localCache w t) (cs t)) \<and>
     distinct gs \<and> (\<forall>t. distinct (cs t)) \<and>
     (\<forall>t t'. t \<noteq> t' \<longrightarrow> set (cs t) \<inter> set (cs t') = {}) \<and>
     (\<forall>t. set gs \<inter> set (cs t) = {}) \<and>
     set gs \<inter> held = {} \<and> (\<forall>t. set (cs t) \<inter> held = {}) \<and>
     set gs \<union> (\<Union>t. set (cs t)) \<union> held = S"

text \<open>
  What the model assumes of the C library: \<^verbatim>\<open>aligned_alloc(alignment, size)\<close> returns null, or
  the address of a block of \<open>size\<close> bytes that is a multiple of \<open>alignment\<close> and ends inside
  the 64-bit address space.
\<close>

definition aligned_alloc_contract :: "(size_t \<Rightarrow> size_t \<Rightarrow> addr) \<Rightarrow> bool" where
  "aligned_alloc_contract aligned_alloc \<longleftrightarrow>
     (\<forall>alignment size.
        aligned_alloc alignment size = nullptr \<or>
        (unat alignment dvd unat (aligned_alloc alignment size) \<and>
         unat (aligned_alloc alignment size) + unat size \<le> 2 ^ 64))"

text \<open>
  The free slots of a state: the nodes on the global free list of a pool, and the nodes on
  the cache of thread \<open>t\<close>.
\<close>

definition free_global :: "pool \<Rightarrow> world \<Rightarrow> addr set" where
  "free_global p w = chain_nodes (mem w) (freeList p)"

definition free_local :: "world \<Rightarrow> tid \<Rightarrow> addr set" where
  "free_local w t = chain_nodes (mem w) (localCache w t)"

text \<open>
  Iteration \<open>i\<close> of the constructor's loop as one memory update: the node at the start of
  slot \<open>i\<close> gets the address of slot \<open>i - 1\<close> (null for the first slot) as its \<^verbatim>\<open>next\<close>.
\<close>

definition link_slot :: "size_t \<Rightarrow> addr \<Rightarrow> memory \<Rightarrow> nat \<Rightarrow> memory" where
  "link_slot sizeofT buf m i =
     store_ptr m (slot sizeofT buf i) (if i = 0 then nullptr else slot sizeofT buf (i - 1))"

text \<open>
  The demonstration program's setting, used to evaluate the model on concrete inputs:
  \<^verbatim>\<open>LockFreeMemoryPool<Order, 4>\<close> with \<^verbatim>\<open>sizeof(Order) = 64\<close>, in a process whose memory is
  zero and where no thread has cached anything, with a C library that places every
  64-aligned block of at most 4096 bytes at address 4096 and refuses any other request.
  \<open>demo_mem\<close> is the memory the constructor leaves there, \<open>demo_calls\<close> a short
  call sequence by two threads.
\<close>

definition demo_world :: world where
  "demo_world = \<lparr>mem = (\<lambda>_. 0), localCache = (\<lambda>_. nullptr), blocks = Map.empty\<rparr>"

definition demo_alloc :: "size_t \<Rightarrow> size_t \<Rightarrow> addr" where
  "demo_alloc alignment n = (if alignment = 64 \<and> n \<le> 4096 then 4096 else nullptr)"

definition demo_mem :: memory where
  "demo_mem = store_ptr (store_ptr (store_ptr (store_ptr (\<lambda>_. 0) 4096 nullptr) 4160 4096) 4224 4160) 4288 4224"

definition demo_calls :: "call list" where
  "demo_calls = [Allocate 0 0, Allocate 1 2, UserWrite 4288 0 255, Deallocate 1 4288, Allocate 1 0]"

text \<open>
  The memory the constructor leaves for \<^verbatim>\<open>LockFreeMemoryPool<int, 2>\<close> (\<^verbatim>\<open>sizeof(int) = 4\<close>)
  in the same setting: the node written at slot 1 (address 4100) overlaps the node written
  before it at slot 0 (address 4096).
\<close>

definition small_mem :: memory where
  "small_mem = store_ptr (store_ptr (\<lambda>_. 0) 4096 nullptr) 4100 4096"

section \<open>Calls of several threads, interleaved\<close>

text \<open>
  Calls of different threads overlap in time. What one thread does to shared state inside
  \<^verbatim>\<open>allocate\<close> is a sequence of atomic actions, and the actions of different threads
  interleave in any order. A thread is either outside the slow path (\<open>Idle\<close>), or at the
  loop test \<^verbatim>\<open>while (head)\<close> with its local \<^verbatim>\<open>head\<close> (\<open>AtLoop head\<close>), or at the
  compare-exchange with its locals \<^verbatim>\<open>head\<close> and \<^verbatim>\<open>next\<close> (\<open>AtCas head next\<close>).
\<close>

datatype pc = Idle | AtLoop addr | AtCas addr addr

text \<open>
  The state of an interleaved run: the pool object, the world, where each thread stands,
  the pointers that \<^verbatim>\<open>allocate\<close> calls have returned and that have not been deallocated since
  (\<open>cheld\<close>, in the order of return, one entry per return), and the successful
  compare-exchanges so far, each with its thread and the slot it popped (\<open>cwins\<close>).
\<close>

record conc =
  cpool :: pool
  cworld :: world
  cpc :: "tid \<Rightarrow> pc"
  cheld :: "addr list"
  cwins :: "(tid \<times> addr) list"

text \<open>
  The actions.
  \<^item> \<open>CallAllocate t\<close>: thread \<open>t\<close> enters \<^verbatim>\<open>allocate\<close>. With a non-empty cache it pops the cache
    and returns (the fast path touches only what belongs to the thread); otherwise it does
    \<^verbatim>\<open>head = freeList.load()\<close>.
  \<^item> \<open>TestHead t\<close>: the loop test. A null \<^verbatim>\<open>head\<close> ends the call with \<^verbatim>\<open>nullptr\<close>; otherwise
    \<^verbatim>\<open>next = head->next\<close> is read from the memory as it is at that moment.
  \<^item> \<open>CompareExchange t spurious\<close>: \<^verbatim>\<open>freeList.compare_exchange_weak(head, next)\<close> on the
    value \<^verbatim>\<open>freeList\<close> has at that moment, which other threads may have changed since the
    load. Success returns \<^verbatim>\<open>head\<close>; failure goes back to the loop test with the reloaded value.
  \<^item> \<open>CallDeallocate t ptr\<close>: thread \<open>t\<close>, outside \<^verbatim>\<open>allocate\<close>, deallocates a pointer that is
    outstanding (it writes only into that slot and its own cache).
  \<^item> \<open>CallerWrite ptr off v\<close>: a caller writes a byte into a slot that is outstanding.
  An action that is not enabled, or that breaks the caller's contract, gives \<open>None\<close>.
\<close>

datatype action =
    CallAllocate tid
  | TestHead tid
  | CompareExchange tid bool
  | CallDeallocate tid addr
  | CallerWrite addr size_t byte

text \<open>
  One action. The fast path is lines 89 to 93 of the source, the load line 96, the loop test
  and the read of \<^verbatim>\<open>head->next\<close> lines 97 and 98, the compare-exchange line 101, the null
  result line 111. The read of \<^verbatim>\<open>head->next\<close> takes the bytes that are in memory at that
  moment, also when another thread has popped \<^verbatim>\<open>head\<close> in between and its caller writes
  there; the compare-exchange that follows then fails. Every action is atomic and takes
  effect at once for all threads.
\<close>

fun cstep :: "size_t \<Rightarrow> action \<Rightarrow> conc \<Rightarrow> conc option" where
  "cstep sizeofT (CallAllocate t) s =
     (if cpc s t \<noteq> Idle then None
      else if localCache (cworld s) t \<noteq> nullptr
      then let n = localCache (cworld s) t
           in Some (s\<lparr>cworld := (cworld s)\<lparr>localCache :=
                         (localCache (cworld s))(t := load_ptr (mem (cworld s)) n)\<rparr>,
                       cheld := cheld s @ [n]\<rparr>)
      else Some (s\<lparr>cpc := (cpc s)(t := AtLoop (freeList (cpool s)))\<rparr>))"
| "cstep sizeofT (TestHead t) s =
     (case cpc s t of
        AtLoop head \<Rightarrow>
          if head = nullptr then Some (s\<lparr>cpc := (cpc s)(t := Idle)\<rparr>)
          else Some (s\<lparr>cpc := (cpc s)(t := AtCas head (load_ptr (mem (cworld s)) head))\<rparr>)
      | _ \<Rightarrow> None)"
| "cstep sizeofT (CompareExchange t spurious) s =
     (case cpc s t of
        AtCas head next \<Rightarrow>
          (case compare_exchange_weak spurious (freeList (cpool s)) head next of
             (True, fl, _) \<Rightarrow>
               Some (s\<lparr>cpool := (cpool s)\<lparr>freeList := fl\<rparr>, cpc := (cpc s)(t := Idle),
                       cheld := cheld s @ [head], cwins := cwins s @ [(t, head)]\<rparr>)
           | (False, fl, head') \<Rightarrow>
               Some (s\<lparr>cpool := (cpool s)\<lparr>freeList := fl\<rparr>, cpc := (cpc s)(t := AtLoop head')\<rparr>))
      | _ \<Rightarrow> None)"
| "cstep sizeofT (CallDeallocate t ptr) s =
     (if cpc s t = Idle \<and> ptr \<in> set (cheld s)
      then let (p', w') = deallocate t ptr (cpool s) (cworld s)
           in Some (s\<lparr>cpool := p', cworld := w', cheld := remove1 ptr (cheld s)\<rparr>)
      else None)"
| "cstep sizeofT (CallerWrite ptr off v) s =
     (if ptr \<in> set (cheld s) \<and> off < sizeofT
      then Some (s\<lparr>cworld := (cworld s)\<lparr>mem := (mem (cworld s))(ptr + off := v)\<rparr>\<rparr>)
      else None)"

text \<open>A schedule is a list of actions, run from left to right.\<close>

fun crun :: "size_t \<Rightarrow> action list \<Rightarrow> conc \<Rightarrow> conc option" where
  "crun sizeofT [] s = Some s"
| "crun sizeofT (a # as) s =
     (case cstep sizeofT a s of None \<Rightarrow> None | Some s' \<Rightarrow> crun sizeofT as s')"




section \<open>Memory and the two paths of allocate\<close>

lemma upt8: "[0..<8] = [0,1,2,3,4,5,6,7]"
  by (simp add: upt_rec)

lemma bit_le_word:
  "bit (le_word bs) n = (n < 64 \<and> n div 8 < length bs \<and> bit (bs ! (n div 8)) (n mod 8))"
proof (induction bs arbitrary: n)
  case Nil
  then show ?case by simp
next
  case (Cons b bs)
  show ?case
  proof (cases "n < 8")
    case True
    then show ?thesis by (simp add: bit_simps)
  next
    case False
    then have "(n - 8) div 8 = n div 8 - 1" "(n - 8) mod 8 = n mod 8" "0 < n div 8"
      by (simp_all add: le_div_geq le_mod_geq)
    moreover from False have "\<not> bit b n"
      by (auto dest: bit_imp_le_length)
    moreover from \<open>0 < n div 8\<close> have "(n div 8 - 1 < length bs) = (n div 8 < Suc (length bs))"
      by arith
    moreover from False have "(n - 8 < 64) = (n < 72)" by arith
    ultimately show ?thesis using False
      by (auto simp: bit_simps Cons.IH nth_Cons' dest: bit_imp_le_length)
  qed
qed

lemma bit_ptr_byte: "bit (ptr_byte p k) j = (j < 8 \<and> bit p (8 * k + j))"
  by (auto simp: ptr_byte_def bit_simps)

lemma le_word_bytes: "le_word (map (ptr_byte p) [0..<8]) = p"
proof (rule bit_word_eqI)
  fix n assume "n < LENGTH(64)"
  then have n: "n < 64" by simp
  then have "n div 8 < 8" by simp
  with n show "bit (le_word (map (ptr_byte p) [0..<8])) n = bit p n"
    by (simp add: bit_le_word bit_ptr_byte)
qed

lemma unat_sizeof_FreeNode: "unat sizeof_FreeNode = 8"
  by (simp add: sizeof_FreeNode_def)

lemma store_ptr_at: "k < 8 \<Longrightarrow> store_ptr m a p (a + of_nat k) = ptr_byte p k"
  by (simp add: store_ptr_def sizeof_FreeNode_def unat_of_nat word_less_nat_alt)

lemma node_bytes_iff: "(x - a < sizeof_FreeNode) = (\<exists>k<8. x = a + of_nat k)"
proof
  assume "x - a < sizeof_FreeNode"
  then have "unat (x - a) < 8" by (simp add: word_less_nat_alt sizeof_FreeNode_def)
  moreover have "x = a + of_nat (unat (x - a))" by simp
  ultimately show "\<exists>k<8. x = a + of_nat k" by blast
next
  assume "\<exists>k<8. x = a + of_nat k"
  then show "x - a < sizeof_FreeNode"
    by (auto simp: word_less_nat_alt unat_of_nat sizeof_FreeNode_def)
qed

lemma store_ptr_other: "\<not> x - a < sizeof_FreeNode \<Longrightarrow> store_ptr m a p x = m x"
  by (simp add: store_ptr_def)

lemma load_ptr_cong:
  assumes "\<And>k. k < 8 \<Longrightarrow> m' (a + of_nat k) = m (a + of_nat k)"
  shows "load_ptr m' a = load_ptr m a"
proof -
  have "map (\<lambda>k. m' (a + of_nat k)) [0..<8] = map (\<lambda>k. m (a + of_nat k)) [0..<8]"
    by (rule map_cong) (simp_all add: assms)
  then show ?thesis
    by (simp only: load_ptr_def unat_sizeof_FreeNode)
qed

lemma load_store_same: "load_ptr (store_ptr m a p) a = p"
proof -
  have "map (\<lambda>k. store_ptr m a p (a + of_nat k)) [0..<8] = map (ptr_byte p) [0..<8]"
    by (rule map_cong) (simp_all add: store_ptr_at)
  then show ?thesis
    by (simp only: load_ptr_def le_word_bytes unat_sizeof_FreeNode)
qed

lemma allocate_loop_self:
  "allocate_loop spur m fl fl = (if fl = nullptr then (nullptr, nullptr) else (load_ptr m fl, fl))"
proof (induction spur)
  case 0
  show ?case
    by (subst allocate_loop.simps) (simp add: compare_exchange_weak_def)
next
  case (Suc spur)
  then show ?case
    by (subst allocate_loop.simps) (simp add: compare_exchange_weak_def)
qed

lemma allocate_cached:
  "localCache w t \<noteq> nullptr \<Longrightarrow>
   allocate t spur p w =
     (localCache w t, p, w\<lparr>localCache := (localCache w)(t := load_ptr (mem w) (localCache w t))\<rparr>)"
  by (simp add: allocate_def Let_def)

lemma allocate_global:
  "localCache w t = nullptr \<Longrightarrow> freeList p \<noteq> nullptr \<Longrightarrow>
   allocate t spur p w = (freeList p, p\<lparr>freeList := load_ptr (mem w) (freeList p)\<rparr>, w)"
  by (simp add: allocate_def allocate_loop_self)

lemma allocate_exhausted:
  "localCache w t = nullptr \<Longrightarrow> freeList p = nullptr \<Longrightarrow> allocate t spur p w = (nullptr, p, w)"
  by (simp add: allocate_def allocate_loop_self)

section \<open>Free chains\<close>

lemma is_chain_cong:
  "(\<And>x. x \<in> set xs \<Longrightarrow> load_ptr m' x = load_ptr m x) \<Longrightarrow> is_chain m' h xs = is_chain m h xs"
  by (induction xs arbitrary: h) auto

lemma chain_nodes_null: "chain_nodes m nullptr = {}"
proof -
  have "a \<in> chain_nodes m h \<Longrightarrow> h \<noteq> nullptr" for a h
    by (induction rule: chain_nodes.induct) auto
  then show ?thesis by blast
qed

lemma chain_nodes_step:
  assumes "h \<noteq> nullptr"
  shows "chain_nodes m h = insert h (chain_nodes m (load_ptr m h))"
proof (intro equalityI subsetI)
  fix a assume "a \<in> chain_nodes m h"
  then show "a \<in> insert h (chain_nodes m (load_ptr m h))"
  proof (induction rule: chain_nodes.induct)
    case chain_head
    then show ?case by simp
  next
    case (chain_next a)
    then show ?case
      by (auto intro: chain_nodes.intros)
  qed
next
  fix a assume a: "a \<in> insert h (chain_nodes m (load_ptr m h))"
  have "b \<in> chain_nodes m (load_ptr m h) \<Longrightarrow> b \<in> chain_nodes m h" for b
  proof (induction rule: chain_nodes.induct)
    case chain_head
    with assms show ?case
      by (blast intro: chain_nodes.intros)
  next
    case (chain_next a)
    then show ?case
      by (blast intro: chain_nodes.intros)
  qed
  with a assms show "a \<in> chain_nodes m h"
    by (auto intro: chain_nodes.chain_head)
qed

lemma chain_nodes_is_chain: "is_chain m h xs \<Longrightarrow> chain_nodes m h = set xs"
  by (induction xs arbitrary: h) (auto simp: chain_nodes_null chain_nodes_step)

lemma is_chain_nonnull:
  "is_chain m h xs \<Longrightarrow> h \<noteq> nullptr \<Longrightarrow> \<exists>ys. xs = h # ys \<and> is_chain m (load_ptr m h) ys"
  by (cases xs) auto

text \<open>
  A store inside one slot leaves the \<^verbatim>\<open>next\<close> field of every other slot as it was, provided
  a slot is at least as large as a free node.
\<close>

lemma store_ptr_separated:
  assumes sep: "separated sizeofT S" and sz: "sizeof_FreeNode \<le> sizeofT"
    and a: "a \<in> S" and x: "x \<in> S" and ne: "x \<noteq> a"
  shows "load_ptr (store_ptr m a p) x = load_ptr m x"
proof (rule load_ptr_cong)
  fix k :: nat assume k: "k < 8"
  from sz have s8: "8 \<le> unat sizeofT"
    by (simp add: word_le_nat_alt sizeof_FreeNode_def)
  have "\<not> (x + of_nat k - a < sizeof_FreeNode)"
  proof
    assume "x + of_nat k - a < sizeof_FreeNode"
    then obtain j where "j < 8" "x + of_nat k = a + of_nat j"
      by (auto simp: node_bytes_iff)
    with sep a x ne k s8 show False
      by (auto simp: separated_def)
  qed
  then show "store_ptr m a p (x + of_nat k) = m (x + of_nat k)"
    by (rule store_ptr_other)
qed

lemma user_write_separated:
  assumes sep: "separated sizeofT S" and sz: "sizeof_FreeNode \<le> sizeofT"
    and a: "a \<in> S" and x: "x \<in> S" and ne: "x \<noteq> a" and off: "off < sizeofT"
  shows "load_ptr (m(a + off := v)) x = load_ptr m x"
proof (rule load_ptr_cong)
  fix k :: nat assume k: "k < 8"
  from sz have s8: "8 \<le> unat sizeofT"
    by (simp add: word_le_nat_alt sizeof_FreeNode_def)
  define j where "j = unat off"
  from off have j: "j < unat sizeofT"
    by (simp add: word_less_nat_alt j_def)
  have offj: "off = of_nat j"
    by (simp add: j_def)
  from j k s8 have "j < unat sizeofT \<and> k < unat sizeofT"
    by simp
  with sep a x ne have "x + of_nat k \<noteq> a + of_nat j"
    unfolding separated_def by blast
  then show "(m(a + off := v)) (x + of_nat k) = m (x + of_nat k)"
    by (simp add: offj)
qed

section \<open>The partition is kept by every call\<close>

lemma UN_split: "(\<Union>t'. f t') = f t \<union> (\<Union>t'\<in>- {t}. f t')"
  by blast

lemma UN_upd: "(\<Union>t'. set ((cs(t := ys)) t')) = set ys \<union> (\<Union>t'\<in>- {t}. set (cs t'))"
  by (subst UN_split [of _ t]) simp

lemma UN_cs: "(\<Union>t'. set (cs t')) = set (cs t) \<union> (\<Union>t'\<in>- {t}. set (cs t'))"
  by (rule UN_split)

lemma pool_invD:
  assumes "pool_inv S p w held gs cs"
  shows "is_chain (mem w) (freeList p) gs"
    and "is_chain (mem w) (localCache w t) (cs t)"
    and "distinct gs" and "distinct (cs t)"
    and "t \<noteq> t' \<Longrightarrow> set (cs t) \<inter> set (cs t') = {}"
    and "set gs \<inter> set (cs t) = {}"
    and "set gs \<inter> held = {}" and "set (cs t) \<inter> held = {}"
    and "set gs \<union> (\<Union>t. set (cs t)) \<union> held = S"
  using assms by (simp_all add: pool_inv_def)

lemma pool_inv_subset:
  assumes "pool_inv S p w held gs cs"
  shows "set gs \<subseteq> S - held" and "set (cs t) \<subseteq> S - held" and "held \<subseteq> S"
  using pool_invD(7-9) [OF assms] by blast+

lemma pool_inv_mem:
  assumes inv: "pool_inv S p w held gs cs"
    and same: "\<And>x. x \<in> S - held \<Longrightarrow> load_ptr m' x = load_ptr (mem w) x"
  shows "pool_inv S p (w\<lparr>mem := m'\<rparr>) held gs cs"
proof -
  have g: "is_chain m' (freeList p) gs"
    using pool_invD(1) [OF inv] pool_inv_subset(1) [OF inv] same
    by (subst is_chain_cong [of gs m' "mem w"]) auto
  have c: "is_chain m' (localCache w t) (cs t)" for t
    using pool_invD(2) [OF inv, of t] pool_inv_subset(2) [OF inv, of t] same
    by (subst is_chain_cong [of "cs t" m' "mem w"]) auto
  from inv g c show ?thesis
    by (simp add: pool_inv_def)
qed

lemma pool_inv_pop_local:
  assumes inv: "pool_inv S p w held gs cs" and c: "localCache w t \<noteq> nullptr"
  shows "\<exists>cs'. pool_inv S p (w\<lparr>localCache := (localCache w)(t := load_ptr (mem w) (localCache w t))\<rparr>)
           (insert (localCache w t) held) gs cs'"
proof -
  let ?c = "localCache w t"
  from pool_invD(2) [OF inv, of t] c obtain ys
    where ys: "cs t = ?c # ys" "is_chain (mem w) (load_ptr (mem w) ?c) ys"
    by (blast dest: is_chain_nonnull)
  let ?cs = "cs(t := ys)"
  have sub: "set (?cs t') \<subseteq> set (cs t')" for t'
    using ys by auto
  have un: "(\<Union>t'. set (?cs t')) \<union> {?c} = (\<Union>t'. set (cs t'))"
    by (simp only: UN_upd UN_cs [of cs t] ys) auto
  from pool_invD(4) [OF inv, of t] ys have dist: "?c \<notin> set ys" "distinct ys"
    by auto
  have "pool_inv S p (w\<lparr>localCache := (localCache w)(t := load_ptr (mem w) ?c)\<rparr>)
           (insert ?c held) gs ?cs"
    unfolding pool_inv_def
  proof (intro conjI allI impI)
    show "is_chain (mem (w\<lparr>localCache := (localCache w)(t := load_ptr (mem w) ?c)\<rparr>))
            (freeList p) gs"
      using pool_invD(1) [OF inv] by simp
  next
    fix t'
    show "is_chain (mem (w\<lparr>localCache := (localCache w)(t := load_ptr (mem w) ?c)\<rparr>))
            (localCache (w\<lparr>localCache := (localCache w)(t := load_ptr (mem w) ?c)\<rparr>) t')
            (?cs t')"
      using pool_invD(2) [OF inv, of t'] ys by simp
  next
    show "distinct gs" by (rule pool_invD(3) [OF inv])
  next
    fix t' show "distinct (?cs t')"
      using pool_invD(4) [OF inv, of t'] dist by simp
  next
    fix t1 t2 :: tid assume "t1 \<noteq> t2"
    with pool_invD(5) [OF inv, of t1 t2] sub [of t1] sub [of t2]
    show "set (?cs t1) \<inter> set (?cs t2) = {}"
      by blast
  next
    fix t'
    from pool_invD(6) [OF inv, of t'] sub [of t'] show "set gs \<inter> set (?cs t') = {}"
      by blast
  next
    from pool_invD(7) [OF inv] pool_invD(6) [OF inv, of t] ys
    show "set gs \<inter> insert ?c held = {}"
      by auto
  next
    fix t'
    show "set (?cs t') \<inter> insert ?c held = {}"
    proof (cases "t' = t")
      case True
      with pool_invD(8) [OF inv, of t] ys dist show ?thesis by auto
    next
      case False
      with pool_invD(5) [OF inv, of t' t] pool_invD(8) [OF inv, of t'] ys show ?thesis by auto
    qed
  next
    from pool_invD(9) [OF inv] un
    show "set gs \<union> (\<Union>t'. set (?cs t')) \<union> insert ?c held = S"
      by blast
  qed
  then show ?thesis by blast
qed

lemma pool_inv_pop_global:
  assumes inv: "pool_inv S p w held gs cs" and g: "freeList p \<noteq> nullptr"
  shows "\<exists>gs'. pool_inv S (p\<lparr>freeList := load_ptr (mem w) (freeList p)\<rparr>) w
           (insert (freeList p) held) gs' cs \<and> set gs' \<subseteq> set gs"
proof -
  let ?g = "freeList p"
  from pool_invD(1) [OF inv] g obtain ys
    where ys: "gs = ?g # ys" "is_chain (mem w) (load_ptr (mem w) ?g) ys"
    by (blast dest: is_chain_nonnull)
  from pool_invD(3) [OF inv] ys have dist: "?g \<notin> set ys" "distinct ys"
    by auto
  have "pool_inv S (p\<lparr>freeList := load_ptr (mem w) ?g\<rparr>) w (insert ?g held) ys cs"
    unfolding pool_inv_def
  proof (intro conjI allI impI)
    show "is_chain (mem w) (freeList (p\<lparr>freeList := load_ptr (mem w) ?g\<rparr>)) ys"
      using ys by simp
  next
    fix t' show "is_chain (mem w) (localCache w t') (cs t')"
      by (rule pool_invD(2) [OF inv])
  next
    show "distinct ys" by (rule dist)
  next
    fix t' show "distinct (cs t')" by (rule pool_invD(4) [OF inv])
  next
    fix t1 t2 :: tid assume "t1 \<noteq> t2"
    then show "set (cs t1) \<inter> set (cs t2) = {}"
      by (rule pool_invD(5) [OF inv])
  next
    fix t'
    from pool_invD(6) [OF inv, of t'] ys show "set ys \<inter> set (cs t') = {}"
      by auto
  next
    from pool_invD(7) [OF inv] ys dist show "set ys \<inter> insert ?g held = {}"
      by auto
  next
    fix t'
    from pool_invD(6) [OF inv, of t'] pool_invD(8) [OF inv, of t'] ys
    show "set (cs t') \<inter> insert ?g held = {}"
      by auto
  next
    from pool_invD(9) [OF inv] ys show "set ys \<union> (\<Union>t'. set (cs t')) \<union> insert ?g held = S"
      by auto
  qed
  with ys show ?thesis by auto
qed

lemma pool_inv_push_local:
  assumes inv: "pool_inv S p w held gs cs" and a: "a \<in> held" "a \<noteq> nullptr"
    and ld: "load_ptr (mem w) a = localCache w t"
  shows "pool_inv S p (w\<lparr>localCache := (localCache w)(t := a)\<rparr>) (held - {a}) gs (cs(t := a # cs t))"
proof -
  let ?cs = "cs(t := a # cs t)"
  have un: "(\<Union>t'. set (?cs t')) = insert a (\<Union>t'. set (cs t'))"
    by (simp only: UN_upd UN_cs [of cs t]) auto
  have notin: "a \<notin> set gs" "a \<notin> set (cs t')" for t'
    using pool_invD(7) [OF inv] pool_invD(8) [OF inv, of t'] a by auto
  show ?thesis
    unfolding pool_inv_def
  proof (intro conjI allI impI)
    show "is_chain (mem (w\<lparr>localCache := (localCache w)(t := a)\<rparr>)) (freeList p) gs"
      using pool_invD(1) [OF inv] by simp
  next
    fix t'
    show "is_chain (mem (w\<lparr>localCache := (localCache w)(t := a)\<rparr>))
            (localCache (w\<lparr>localCache := (localCache w)(t := a)\<rparr>) t') (?cs t')"
      using pool_invD(2) [OF inv, of t'] pool_invD(2) [OF inv, of t] a ld by simp
  next
    show "distinct gs" by (rule pool_invD(3) [OF inv])
  next
    fix t' show "distinct (?cs t')"
      using pool_invD(4) [OF inv, of t'] pool_invD(4) [OF inv, of t] notin by simp
  next
    fix t1 t2 :: tid assume "t1 \<noteq> t2"
    with pool_invD(5) [OF inv, of t1 t2] notin
    show "set (?cs t1) \<inter> set (?cs t2) = {}"
      by auto
  next
    fix t'
    from pool_invD(6) [OF inv, of t'] notin show "set gs \<inter> set (?cs t') = {}"
      by auto
  next
    from pool_invD(7) [OF inv] show "set gs \<inter> (held - {a}) = {}"
      by auto
  next
    fix t'
    from pool_invD(8) [OF inv, of t'] show "set (?cs t') \<inter> (held - {a}) = {}"
      by auto
  next
    from pool_invD(9) [OF inv] a un
    show "set gs \<union> (\<Union>t'. set (?cs t')) \<union> (held - {a}) = S"
      by auto
  qed
qed

lemma step_inv:
  assumes sep: "separated sizeofT S" and sz: "sizeof_FreeNode \<le> sizeofT"
    and inv: "pool_inv S p w held gs cs"
    and st: "step sizeofT c (p, w, held) = Some (p', w', held')"
  shows "\<exists>gs' cs'. pool_inv S p' w' held' gs' cs' \<and> set gs' \<subseteq> set gs"
proof (cases c)
  case (Allocate t spur)
  show ?thesis
  proof (cases "localCache w t = nullptr")
    case False
    with st Allocate pool_inv_pop_local [OF inv False] show ?thesis
      by (auto simp: allocate_cached)
  next
    case True
    show ?thesis
    proof (cases "freeList p = nullptr")
      case False
      with st Allocate True pool_inv_pop_global [OF inv False] show ?thesis
        by (auto simp: allocate_global)
    next
      case g: True
      with st Allocate True inv show ?thesis
        by (auto simp: allocate_exhausted)
    qed
  qed
next
  case (Deallocate t a)
  with st have a: "a \<in> held"
    by (auto split: if_splits)
  with pool_inv_subset(3) [OF inv] have aS: "a \<in> S" by blast
  with sep have a0: "a \<noteq> nullptr" by (auto simp: separated_def)
  let ?m = "store_ptr (mem w) a (localCache w t)"
  have 1: "pool_inv S p (w\<lparr>mem := ?m\<rparr>) held gs cs"
  proof (rule pool_inv_mem [OF inv])
    fix x assume "x \<in> S - held"
    with a have "x \<in> S" "x \<noteq> a" by auto
    with sep sz aS show "load_ptr ?m x = load_ptr (mem w) x"
      by (simp add: store_ptr_separated)
  qed
  have "pool_inv S p (w\<lparr>mem := ?m\<rparr>\<lparr>localCache := (localCache (w\<lparr>mem := ?m\<rparr>))(t := a)\<rparr>)
          (held - {a}) gs (cs(t := a # cs t))"
    by (rule pool_inv_push_local [OF 1 a a0]) (simp add: load_store_same)
  with st Deallocate a show ?thesis
    by (auto simp: deallocate_def)
next
  case (UserWrite a off v)
  with st have a: "a \<in> held" "off < sizeofT"
    by (auto split: if_splits)
  with pool_inv_subset(3) [OF inv] have aS: "a \<in> S" by blast
  have "pool_inv S p (w\<lparr>mem := (mem w)(a + off := v)\<rparr>) held gs cs"
  proof (rule pool_inv_mem [OF inv])
    fix x assume "x \<in> S - held"
    with a have "x \<in> S" "x \<noteq> a" by auto
    with sep sz aS a(2) show "load_ptr ((mem w)(a + off := v)) x = load_ptr (mem w) x"
      by (simp add: user_write_separated)
  qed
  with st UserWrite a show ?thesis
    by auto
qed

lemma run_inv:
  assumes sep: "separated sizeofT S" and sz: "sizeof_FreeNode \<le> sizeofT"
  shows "pool_inv S p w held gs cs \<Longrightarrow> run sizeofT calls (p, w, held) = Some (p', w', held') \<Longrightarrow>
         \<exists>gs' cs'. pool_inv S p' w' held' gs' cs' \<and> set gs' \<subseteq> set gs"
proof (induction calls arbitrary: p w held gs cs)
  case Nil
  then show ?case by auto
next
  case (Cons c calls)
  from Cons.prems(2) obtain p1 w1 held1
    where 1: "step sizeofT c (p, w, held) = Some (p1, w1, held1)"
      and 2: "run sizeofT calls (p1, w1, held1) = Some (p', w', held')"
    by (auto split: option.splits)
  from step_inv [OF sep sz Cons.prems(1) 1] obtain gs1 cs1
    where 3: "pool_inv S p1 w1 held1 gs1 cs1" "set gs1 \<subseteq> set gs"
    by blast
  from Cons.IH [OF 3(1) 2] 3(2) show ?case
    by blast
qed

lemma run_append:
  "run sizeofT (xs @ ys) s = (case run sizeofT xs s of None \<Rightarrow> None | Some s' \<Rightarrow> run sizeofT ys s')"
  by (induction xs arbitrary: s) (auto split: option.splits)

lemma run_prefix:
  assumes "run sizeofT calls s \<noteq> None"
  shows "\<exists>s'. run sizeofT (take n calls) s = Some s'"
proof -
  have "run sizeofT (take n calls @ drop n calls) s \<noteq> None"
    using assms by simp
  then show ?thesis
    by (simp only: run_append split: option.splits) auto
qed

lemma pool_inv_sets:
  assumes inv: "pool_inv S p w held gs cs"
  shows "free_global p w \<union> (\<Union>t. free_local w t) \<union> held = S"
    and "free_global p w \<inter> (\<Union>t. free_local w t) = {}"
    and "free_global p w \<inter> held = {}"
    and "(\<Union>t. free_local w t) \<inter> held = {}"
    and "\<forall>t t'. t \<noteq> t' \<longrightarrow> free_local w t \<inter> free_local w t' = {}"
    and "free_global p w = set gs"
proof -
  have g: "free_global p w = set gs"
    using pool_invD(1) [OF inv] by (simp add: free_global_def chain_nodes_is_chain)
  have l: "free_local w t = set (cs t)" for t
    using pool_invD(2) [OF inv, of t] by (simp add: free_local_def chain_nodes_is_chain)
  show "free_global p w \<union> (\<Union>t. free_local w t) \<union> held = S"
    using pool_invD(9) [OF inv] by (simp add: g l)
  show "free_global p w \<inter> (\<Union>t. free_local w t) = {}"
    using pool_invD(6) [OF inv] by (auto simp: g l)
  show "free_global p w \<inter> held = {}"
    using pool_invD(7) [OF inv] by (simp add: g)
  show "(\<Union>t. free_local w t) \<inter> held = {}"
    using pool_invD(8) [OF inv] by (auto simp: l)
  show "\<forall>t t'. t \<noteq> t' \<longrightarrow> free_local w t \<inter> free_local w t' = {}"
    using pool_invD(5) [OF inv] by (simp add: l)
  show "free_global p w = set gs" by (rule g)
qed

section \<open>The slots of a pool\<close>

lemma slot_offset_unat:
  assumes fit: "unat buf + unat poolSize * unat sizeofT \<le> 2 ^ 64"
    and i: "i < unat poolSize" and j: "j < unat sizeofT"
  shows "unat (slot sizeofT buf i + of_nat j) = unat buf + i * unat sizeofT + j"
proof -
  let ?s = "unat sizeofT"
  let ?k = "i * ?s + j"
  from i have "Suc i * ?s \<le> unat poolSize * ?s"
    by (intro mult_le_mono1) simp
  with j have k: "?k < unat poolSize * ?s"
    by simp
  have b: "unat buf < 2 ^ 64"
    using unsigned_less [of buf] by simp
  from k fit have k64: "?k < 2 ^ 64" by simp
  have "slot sizeofT buf i + of_nat j = buf + of_nat ?k"
    by (simp add: slot_def)
  moreover have "unat (of_nat ?k :: 64 word) = ?k"
    by (rule of_nat_inverse [OF refl]) (use k64 in simp)
  moreover from this k fit have "unat (buf + of_nat ?k) = unat buf + unat (of_nat ?k :: 64 word)"
    by (subst unat_add_lem [THEN iffD1]) simp_all
  ultimately show ?thesis
    by (simp add: add.assoc)
qed

lemma offsets_inj:
  fixes s :: nat
  assumes "i * s + j = i' * s + k" and "j < s" and "k < s"
  shows "i = i'"
proof -
  from assms(2) have "(i * s + j) div s = i"
    by simp
  moreover from assms(3) have "(i' * s + k) div s = i'"
    by simp
  ultimately show ?thesis
    using assms(1) by simp
qed

lemma slots_separated:
  assumes fit: "unat buf + unat poolSize * unat sizeofT \<le> 2 ^ 64"
    and sz: "sizeof_FreeNode \<le> sizeofT" and buf: "buf \<noteq> nullptr"
  shows "separated sizeofT (slots sizeofT poolSize buf)"
  unfolding separated_def
proof (intro conjI ballI allI impI)
  from sz have s: "0 < unat sizeofT"
    by (simp add: word_le_nat_alt sizeof_FreeNode_def)
  show "nullptr \<notin> slots sizeofT poolSize buf"
  proof
    assume "nullptr \<in> slots sizeofT poolSize buf"
    then obtain i where i: "i < unat poolSize" "slot sizeofT buf i = 0"
      by (auto simp: slots_def)
    from slot_offset_unat [OF fit i(1) s] i(2) have "unat buf = 0"
      by simp
    with buf show False by (simp add: unat_0_iff)
  qed
next
  fix a b :: addr and j k :: nat
  assume a: "a \<in> slots sizeofT poolSize buf" and b: "b \<in> slots sizeofT poolSize buf"
    and ne: "a \<noteq> b" and j: "j < unat sizeofT" and k: "k < unat sizeofT"
  from a obtain i where i: "i < unat poolSize" "a = slot sizeofT buf i"
    by (auto simp: slots_def)
  from b obtain i' where i': "i' < unat poolSize" "b = slot sizeofT buf i'"
    by (auto simp: slots_def)
  show "a + of_nat j \<noteq> b + of_nat k"
  proof
    assume "a + of_nat j = b + of_nat k"
    then have "unat (a + of_nat j) = unat (b + of_nat k)" by simp
    with i i' have "i * unat sizeofT + j = i' * unat sizeofT + k"
      by (simp add: slot_offset_unat [OF fit _ j] slot_offset_unat [OF fit _ k])
    from this j k have "i = i'" by (rule offsets_inj)
    with i i' ne show False by simp
  qed
qed

lemma slot_inj:
  assumes fit: "unat buf + unat poolSize * unat sizeofT \<le> 2 ^ 64"
    and sz: "sizeof_FreeNode \<le> sizeofT"
    and i: "i < unat poolSize" and i': "i' < unat poolSize"
    and eq: "slot sizeofT buf i = slot sizeofT buf i'"
  shows "i = i'"
proof -
  from sz have s: "0 < unat sizeofT"
    by (simp add: word_le_nat_alt sizeof_FreeNode_def)
  from eq have "unat (slot sizeofT buf i + of_nat 0) = unat (slot sizeofT buf i' + of_nat 0)"
    by simp
  then have "i * unat sizeofT + 0 = i' * unat sizeofT + 0"
    by (simp only: slot_offset_unat [OF fit i s] slot_offset_unat [OF fit i' s])
  with s show ?thesis
    by simp
qed

lemma slot_in_block:
  assumes fit: "unat buf + unat poolSize * unat sizeofT \<le> 2 ^ 64"
    and sz: "sizeof_FreeNode \<le> sizeofT" and i: "i < unat poolSize"
  shows "unat (slot sizeofT buf i) = unat buf + i * unat sizeofT"
proof -
  from sz have s: "0 < unat sizeofT"
    by (simp add: word_le_nat_alt sizeof_FreeNode_def)
  from slot_offset_unat [OF fit i s] show ?thesis by simp
qed

lemma card_slots:
  assumes fit: "unat buf + unat poolSize * unat sizeofT \<le> 2 ^ 64"
    and sz: "sizeof_FreeNode \<le> sizeofT"
  shows "card (slots sizeofT poolSize buf) = unat poolSize"
proof -
  have "inj_on (slot sizeofT buf) {..<unat poolSize}"
    by (auto simp: inj_on_def dest: slot_inj [OF fit sz])
  then show ?thesis
    by (simp add: slots_def card_image)
qed

section \<open>The constructor\<close>

lemma build_free_list_chain:
  assumes fit: "unat buf + unat poolSize * unat sizeofT \<le> 2 ^ 64"
    and sz: "sizeof_FreeNode \<le> sizeofT" and buf: "buf \<noteq> nullptr"
  shows "i \<le> unat poolSize \<Longrightarrow> is_chain m h (rev (map (slot sizeofT buf) [0..<i])) \<Longrightarrow>
         is_chain (fst (build_free_list sizeofT poolSize buf (of_nat i) m h))
                  (snd (build_free_list sizeofT poolSize buf (of_nat i) m h))
                  (rev (map (slot sizeofT buf) [0..<unat poolSize]))"
proof (induction "unat poolSize - i" arbitrary: i m h)
  case 0
  then have "i = unat poolSize" by simp
  then have "\<not> (of_nat i :: 64 word) < poolSize"
    by simp
  with 0 \<open>i = unat poolSize\<close> show ?case
    by (subst (1 2) build_free_list.simps) simp
next
  case (Suc d)
  let ?S = "slots sizeofT poolSize buf"
  from Suc.hyps(2) have i: "i < unat poolSize" by simp
  have "unat poolSize < 2 ^ 64"
    using unsigned_less [of poolSize] by simp
  with i have ui: "unat (of_nat i :: 64 word) = i"
    by (intro of_nat_inverse [OF refl]) simp
  with i have lt: "(of_nat i :: 64 word) < poolSize"
    by (simp add: word_less_nat_alt)
  have sep: "separated sizeofT ?S"
    by (rule slots_separated [OF fit sz buf])
  let ?node = "slot sizeofT buf i"
  let ?m = "store_ptr m ?node h"
  have nodeS: "?node \<in> ?S"
    using i by (auto simp: slots_def)
  with sep have node0: "?node \<noteq> nullptr"
    by (auto simp: separated_def)
  have old: "load_ptr ?m x = load_ptr m x" if "x \<in> set (rev (map (slot sizeofT buf) [0..<i]))" for x
  proof -
    from that obtain i' where i': "i' < i" "x = slot sizeofT buf i'" by auto
    with i have "x \<in> ?S" by (auto simp: slots_def)
    moreover have "x \<noteq> ?node"
      using slot_inj [OF fit sz _ i, of i'] i' i by auto
    ultimately show ?thesis
      using sep sz nodeS by (simp add: store_ptr_separated)
  qed
  have "is_chain ?m h (rev (map (slot sizeofT buf) [0..<i]))"
    using Suc.prems(2) old by (subst is_chain_cong [of _ ?m m]) auto
  hence "is_chain ?m ?node (?node # rev (map (slot sizeofT buf) [0..<i]))"
    using node0 by (simp add: load_store_same)
  hence ch: "is_chain ?m ?node (rev (map (slot sizeofT buf) [0..<Suc i]))"
    by simp
  from Suc.hyps(2) have d: "d = unat poolSize - Suc i" by simp
  from i have le: "Suc i \<le> unat poolSize" by simp
  have step: "build_free_list sizeofT poolSize buf (of_nat i) m h
      = build_free_list sizeofT poolSize buf (of_nat (Suc i)) ?m ?node"
    using lt by (subst build_free_list.simps) (simp add: slot_def Let_def add.commute)
  show ?case
    unfolding step by (rule Suc.hyps(1) [OF d le ch])
qed

lemma build_free_list_fold:
  "i \<le> unat poolSize \<Longrightarrow> h = (if i = 0 then nullptr else slot sizeofT buf (i - 1)) \<Longrightarrow>
   build_free_list sizeofT poolSize buf (of_nat i) m h =
     (foldl (link_slot sizeofT buf) m [i..<unat poolSize],
      if unat poolSize = 0 then nullptr else slot sizeofT buf (unat poolSize - 1))"
proof (induction "unat poolSize - i" arbitrary: i m h)
  case 0
  then have i: "i = unat poolSize" by simp
  then have "\<not> (of_nat i :: 64 word) < poolSize"
    by simp
  with 0 i show ?case
    by (subst build_free_list.simps) auto
next
  case (Suc d)
  from Suc.hyps(2) have i: "i < unat poolSize" by simp
  have "unat poolSize < 2 ^ 64"
    using unsigned_less [of poolSize] by simp
  with i have ui: "unat (of_nat i :: 64 word) = i"
    by (intro of_nat_inverse [OF refl]) simp
  with i have lt: "(of_nat i :: 64 word) < poolSize"
    by (simp add: word_less_nat_alt)
  let ?node = "slot sizeofT buf i"
  have step: "build_free_list sizeofT poolSize buf (of_nat i) m h
      = build_free_list sizeofT poolSize buf (of_nat (Suc i)) (store_ptr m ?node h) ?node"
    using lt by (subst build_free_list.simps) (simp add: slot_def Let_def add.commute)
  from Suc.hyps(2) have d: "d = unat poolSize - Suc i" by simp
  from i have le: "Suc i \<le> unat poolSize" by simp
  have h': "?node = (if Suc i = 0 then nullptr else slot sizeofT buf (Suc i - 1))"
    by simp
  have l: "store_ptr m ?node h = link_slot sizeofT buf m i"
    using Suc.prems(2) by (simp add: link_slot_def)
  from i have u: "[i..<unat poolSize] = i # [Suc i..<unat poolSize]"
    by (simp add: upt_conv_Cons)
  show ?case
    unfolding step using Suc.hyps(1) [OF d le h', of "store_ptr m ?node h"]
    by (simp add: l u)
qed

lemma ctor_result:
  "LockFreeMemoryPool sizeofT poolSize al w0 = Inr (p, w) \<Longrightarrow>
     al CACHE_LINE (alloc_size sizeofT poolSize) \<noteq> nullptr \<and>
     buffer p = al CACHE_LINE (alloc_size sizeofT poolSize) \<and>
     freeList p = snd (build_free_list sizeofT poolSize (buffer p) 0 (mem w0) nullptr) \<and>
     mem w = fst (build_free_list sizeofT poolSize (buffer p) 0 (mem w0) nullptr) \<and>
     localCache w = localCache w0 \<and>
     blocks w = (blocks w0)(buffer p \<mapsto> alloc_size sizeofT poolSize)"
  by (auto simp: LockFreeMemoryPool_def Let_def split: if_splits prod.splits)

lemma ctor_succeeds:
  "al CACHE_LINE (alloc_size sizeofT poolSize) \<noteq> nullptr \<Longrightarrow>
   \<exists>p w. LockFreeMemoryPool sizeofT poolSize al w0 = Inr (p, w)"
  by (auto simp: LockFreeMemoryPool_def Let_def split: prod.splits)

lemma ctor_mem:
  assumes "LockFreeMemoryPool sizeofT poolSize al w = Inr (p, w')"
  shows "mem w' = foldl (link_slot sizeofT (buffer p)) (mem w) [0..<unat poolSize]"
    and "freeList p = (if unat poolSize = 0 then nullptr else slot sizeofT (buffer p) (unat poolSize - 1))"
  using ctor_result [OF assms]
    build_free_list_fold [of 0 poolSize nullptr sizeofT "buffer p" "mem w"]
  by simp_all

lemma ctor_last_slot:
  assumes ctor: "LockFreeMemoryPool sizeofT poolSize al w = Inr (p, w')"
    and n: "poolSize \<noteq> 0" and k: "k < 8"
  shows "mem w' (slot sizeofT (buffer p) (unat poolSize - 1) + of_nat k) =
           ptr_byte (if unat poolSize = 1 then nullptr
                     else slot sizeofT (buffer p) (unat poolSize - 2)) k"
proof -
  from n have "0 < unat poolSize"
    by (simp add: unat_gt_0)
  then obtain j where j: "unat poolSize = Suc j"
    by (cases "unat poolSize") auto
  have "mem w' = link_slot sizeofT (buffer p) (foldl (link_slot sizeofT (buffer p)) (mem w) [0..<j]) j"
    using ctor_mem(1) [OF ctor] by (simp add: j)
  with k show ?thesis
    by (auto simp: j link_slot_def store_ptr_at numeral_2_eq_2)
qed

lemma ctor_fit:
  assumes fit: "unat poolSize * unat sizeofT \<le> unat (alloc_size sizeofT poolSize)"
    and al: "aligned_alloc_contract al"
    and ctor: "LockFreeMemoryPool sizeofT poolSize al w0 = Inr (p, w)"
  shows "unat (buffer p) + unat poolSize * unat sizeofT \<le> 2 ^ 64" and "buffer p \<noteq> nullptr"
proof -
  from ctor_result [OF ctor] have b: "buffer p = al CACHE_LINE (alloc_size sizeofT poolSize)"
    "buffer p \<noteq> nullptr" by simp_all
  with al have "unat (buffer p) + unat (alloc_size sizeofT poolSize) \<le> 2 ^ 64"
    unfolding aligned_alloc_contract_def by metis
  with fit show "unat (buffer p) + unat poolSize * unat sizeofT \<le> 2 ^ 64"
    by simp
  show "buffer p \<noteq> nullptr" by (rule b)
qed

lemma ctor_inv:
  assumes sz: "sizeof_FreeNode \<le> sizeofT"
    and fit: "unat poolSize * unat sizeofT \<le> unat (alloc_size sizeofT poolSize)"
    and al: "aligned_alloc_contract al"
    and fresh: "localCache w0 = (\<lambda>_. nullptr)"
    and ctor: "LockFreeMemoryPool sizeofT poolSize al w0 = Inr (p, w)"
  shows "pool_inv (slots sizeofT poolSize (buffer p)) p w {}
           (rev (map (slot sizeofT (buffer p)) [0..<unat poolSize])) (\<lambda>_. [])"
proof -
  note f = ctor_fit [OF fit al ctor]
  note r = ctor_result [OF ctor]
  have "is_chain (mem w) (freeList p) (rev (map (slot sizeofT (buffer p)) [0..<unat poolSize]))"
    using build_free_list_chain [OF f(1) sz f(2), of 0 "mem w0" nullptr] r by simp
  moreover have "distinct (map (slot sizeofT (buffer p)) [0..<unat poolSize])"
    by (auto simp: distinct_map inj_on_def dest: slot_inj [OF f(1) sz])
  ultimately show ?thesis
    using r fresh by (auto simp: pool_inv_def slots_def atLeast0LessThan)
qed

section \<open>Runs of allocate\<close>

lemma allocate_seq_global:
  "is_chain (mem w) (freeList p) xs \<Longrightarrow> localCache w = (\<lambda>_. nullptr) \<Longrightarrow> length calls = length xs \<Longrightarrow>
   allocate_seq calls p w = (xs, p\<lparr>freeList := nullptr\<rparr>, w)"
proof (induction xs arbitrary: calls p)
  case Nil
  then show ?case by simp
next
  case (Cons x xs)
  then obtain t k calls' where c: "calls = (t, k) # calls'" "length calls' = length xs"
    by (cases calls) auto
  from Cons.prems have "allocate t k p w = (x, p\<lparr>freeList := load_ptr (mem w) x\<rparr>, w)"
    by (simp add: allocate_global)
  moreover have "allocate_seq calls' (p\<lparr>freeList := load_ptr (mem w) x\<rparr>) w
      = (xs, p\<lparr>freeList := load_ptr (mem w) x\<rparr>\<lparr>freeList := nullptr\<rparr>, w)"
    using Cons.prems c by (intro Cons.IH) simp_all
  ultimately show ?case
    using c by simp
qed


lemma allocate_null_iff:
  "(fst (allocate t k p w) = nullptr) = (localCache w t = nullptr \<and> freeList p = nullptr)"
  by (cases "localCache w t = nullptr"; cases "freeList p = nullptr")
     (simp_all add: allocate_cached allocate_global allocate_exhausted)

section \<open>The requested size\<close>

lemma round_up_nat:
  assumes "(t :: nat) mod 64 \<noteq> 0"
  shows "t + (64 - t mod 64) = (t + 63) div 64 * 64"
proof -
  define q r where "q = t div 64" and "r = t mod 64"
  have t: "t = r + 64 * q"
    by (simp add: q_def r_def)
  have r: "0 < r" "r < 64"
    using assms by (simp_all add: r_def)
  have "(r + 63) div 64 = 1"
    using r by (intro div_nat_eqI) simp_all
  moreover have "(r + 63 + 64 * q) div 64 = q + (r + 63) div 64"
    by (rule div_mult_self2) simp
  moreover have "t + 63 = r + 63 + 64 * q"
    by (simp add: t)
  ultimately have "(t + 63) div 64 = q + 1"
    by simp
  moreover have "t mod 64 = r"
    by (simp add: r_def)
  ultimately show ?thesis
    using r by (simp add: t)
qed

lemma round_up_nat0:
  assumes "(t :: nat) mod 64 = 0"
  shows "(t + 63) div 64 * 64 = t"
proof -
  from assms obtain q where t: "t = 64 * q"
    by (auto simp: mod_eq_0_iff_dvd)
  have "(63 + 64 * q) div 64 = q + 63 div 64"
    by (rule div_mult_self2) simp
  then show ?thesis
    by (simp add: t add.commute)
qed

lemma mod64_zero_iff: "((z :: 64 word) mod 64 = 0) = (unat z mod 64 = 0)"
proof -
  have "unat (z mod 64) = unat z mod 64"
    by (simp add: unat_mod)
  then show ?thesis
    by (metis unat_0_iff)
qed

lemma unat_round_up:
  fixes z :: "64 word"
  assumes "z mod 64 \<noteq> 0"
  shows "unat (z + (64 - z mod 64)) = (unat z + (64 - unat z mod 64)) mod 2 ^ 64"
proof -
  have m: "unat (z mod 64) = unat z mod 64"
    by (simp add: unat_mod)
  have "unat (z mod 64) \<le> unat (64 :: 64 word)"
    unfolding m by simp
  then have "z mod 64 \<le> 64"
    by (simp only: word_le_nat_alt)
  then have "unat (64 - z mod 64) = unat (64 :: 64 word) - unat (z mod 64)"
    by (rule unat_sub)
  then have s: "unat (64 - z mod 64) = 64 - unat z mod 64"
    by (simp add: m)
  have "unat (z + (64 - z mod 64)) = (unat z + unat (64 - z mod 64)) mod 2 ^ LENGTH(64)"
    by (rule unat_word_ariths)
  then show ?thesis
    by (simp only: s) simp
qed

lemma unat_alloc_size:
  "unat (alloc_size sizeofT poolSize) =
     ((unat (total_bytes sizeofT poolSize) + 63) div 64 * 64) mod 2 ^ 64"
proof (cases "total_bytes sizeofT poolSize mod 64 = 0")
  case True
  then have "unat (total_bytes sizeofT poolSize) mod 64 = 0"
    by (simp only: mod64_zero_iff)
  then have "(unat (total_bytes sizeofT poolSize) + 63) div 64 * 64 = unat (total_bytes sizeofT poolSize)"
    by (rule round_up_nat0)
  moreover have "unat (total_bytes sizeofT poolSize) < 2 ^ 64"
    using unsigned_less [of "total_bytes sizeofT poolSize"] by simp
  moreover from True have "alloc_size sizeofT poolSize = total_bytes sizeofT poolSize"
    by (simp add: alloc_size_def CACHE_LINE_def Let_def)
  ultimately show ?thesis
    by simp
next
  case False
  then have "unat (total_bytes sizeofT poolSize) mod 64 \<noteq> 0"
    by (simp only: mod64_zero_iff not_False_eq_True)
  then have "unat (total_bytes sizeofT poolSize) + (64 - unat (total_bytes sizeofT poolSize) mod 64)
      = (unat (total_bytes sizeofT poolSize) + 63) div 64 * 64"
    by (rule round_up_nat)
  moreover from False have "alloc_size sizeofT poolSize
      = total_bytes sizeofT poolSize + (64 - total_bytes sizeofT poolSize mod 64)"
    by (simp add: alloc_size_def CACHE_LINE_def Let_def)
  ultimately show ?thesis
    using unat_round_up [OF False] by simp
qed

lemma unat_total_bytes:
  "unat (total_bytes sizeofT poolSize) = (unat poolSize * unat sizeofT) mod 2 ^ 64"
  by (simp add: total_bytes_def unat_word_ariths)

lemma alloc_size_fit:
  assumes fit: "unat poolSize * unat sizeofT \<le> unat (alloc_size sizeofT poolSize)"
  shows "unat (alloc_size sizeofT poolSize) = (unat poolSize * unat sizeofT + 63) div 64 * 64"
proof -
  let ?P = "unat poolSize * unat sizeofT"
  let ?A = "unat (alloc_size sizeofT poolSize)"
  have A: "?A < 2 ^ 64" using unsigned_less [of "alloc_size sizeofT poolSize"] by simp
  with fit have P: "?P < 2 ^ 64" by simp
  then have tb: "unat (total_bytes sizeofT poolSize) = ?P"
    by (simp add: unat_total_bytes)
  have "(?P + 63) div 64 \<le> (2 ^ 64 + 62) div 64"
    using P by (intro div_le_mono) simp
  then have le: "(?P + 63) div 64 * 64 \<le> 2 ^ 64"
    by simp
  show ?thesis
  proof (cases "(?P + 63) div 64 * 64 = 2 ^ 64")
    case True
    then have "?A = 0"
      by (simp add: unat_alloc_size tb)
    with fit have "?P = 0" by simp
    with True show ?thesis by simp
  next
    case False
    with le have "(?P + 63) div 64 * 64 < 2 ^ 64" by simp
    then show ?thesis
      by (simp add: unat_alloc_size tb)
  qed
qed

section \<open>Interleaved calls\<close>









text \<open>A thread that runs alone through its actions does what \<^verbatim>\<open>allocate\<close> does.\<close>

lemma spin_alone:
  assumes "cpc s t = AtLoop (freeList (cpool s))" and "freeList (cpool s) \<noteq> nullptr"
  shows "crun sizeofT (concat (replicate k [TestHead t, CompareExchange t True]) @ rest) s
           = crun sizeofT rest s"
proof (induction k)
  case 0
  show ?case by simp
next
  case (Suc k)
  have "(cpc s)(t := AtLoop (freeList (cpool s))) = cpc s"
    using assms(1) by auto
  then have "cstep sizeofT (CompareExchange t True)
       (s\<lparr>cpc := (cpc s)(t := AtCas (freeList (cpool s)) (load_ptr (mem (cworld s)) (freeList (cpool s))))\<rparr>)
     = Some s"
    by (simp add: compare_exchange_weak_def)
  with assms Suc show ?case
    by simp
qed

lemma allocate_alone:
  assumes idle: "cpc s t = Idle"
  shows "localCache (cworld s) t \<noteq> nullptr \<Longrightarrow>
           crun sizeofT [CallAllocate t] s =
             (let (r, p, w) = allocate t k (cpool s) (cworld s)
              in Some (s\<lparr>cpool := p, cworld := w, cheld := cheld s @ [r]\<rparr>))"
    and "localCache (cworld s) t = nullptr \<Longrightarrow> freeList (cpool s) = nullptr \<Longrightarrow>
           crun sizeofT [CallAllocate t, TestHead t] s = Some s \<and>
           allocate t k (cpool s) (cworld s) = (nullptr, cpool s, cworld s)"
    and "localCache (cworld s) t = nullptr \<Longrightarrow> freeList (cpool s) \<noteq> nullptr \<Longrightarrow>
           crun sizeofT (CallAllocate t # concat (replicate k [TestHead t, CompareExchange t True])
                          @ [TestHead t, CompareExchange t False]) s =
             (let (r, p, w) = allocate t k (cpool s) (cworld s)
              in Some (s\<lparr>cpool := p, cworld := w, cheld := cheld s @ [r],
                         cwins := cwins s @ [(t, r)]\<rparr>))"
proof -
  show "crun sizeofT [CallAllocate t] s =
             (let (r, p, w) = allocate t k (cpool s) (cworld s)
              in Some (s\<lparr>cpool := p, cworld := w, cheld := cheld s @ [r]\<rparr>))"
    if "localCache (cworld s) t \<noteq> nullptr"
    using that idle by (simp add: allocate_cached Let_def)
  show "crun sizeofT [CallAllocate t, TestHead t] s = Some s \<and>
           allocate t k (cpool s) (cworld s) = (nullptr, cpool s, cworld s)"
    if "localCache (cworld s) t = nullptr" "freeList (cpool s) = nullptr"
  proof -
    have "(cpc s)(t := Idle) = cpc s"
      using idle by auto
    with that idle show ?thesis
      by (simp add: allocate_exhausted)
  qed
  show "crun sizeofT (CallAllocate t # concat (replicate k [TestHead t, CompareExchange t True])
                          @ [TestHead t, CompareExchange t False]) s =
             (let (r, p, w) = allocate t k (cpool s) (cworld s)
              in Some (s\<lparr>cpool := p, cworld := w, cheld := cheld s @ [r],
                         cwins := cwins s @ [(t, r)]\<rparr>))"
    if c: "localCache (cworld s) t = nullptr" and g: "freeList (cpool s) \<noteq> nullptr"
  proof -
    let ?s1 = "s\<lparr>cpc := (cpc s)(t := AtLoop (freeList (cpool s)))\<rparr>"
    have 1: "cstep sizeofT (CallAllocate t) s = Some ?s1"
      using idle c by simp
    have 2: "crun sizeofT (concat (replicate k [TestHead t, CompareExchange t True])
                          @ [TestHead t, CompareExchange t False]) ?s1
        = crun sizeofT [TestHead t, CompareExchange t False] ?s1"
      by (rule spin_alone) (use g in simp_all)
    have 3: "(cpc s)(t := Idle) = cpc s"
      using idle by auto
    have "crun sizeofT [TestHead t, CompareExchange t False] ?s1
        = Some (s\<lparr>cpool := (cpool s)\<lparr>freeList := load_ptr (mem (cworld s)) (freeList (cpool s))\<rparr>,
                   cworld := cworld s, cheld := cheld s @ [freeList (cpool s)],
                   cwins := cwins s @ [(t, freeList (cpool s))]\<rparr>)"
      using g 3 by (simp add: compare_exchange_weak_def)
    with 1 2 c g show ?thesis
      by (simp add: allocate_global)
  qed
qed

section \<open>The null result\<close>

lemma chain_nodes_empty_iff: "(chain_nodes m h = {}) = (h = nullptr)"
  by (auto simp: chain_nodes_null intro: chain_nodes.chain_head)

lemma partition_rest:
  assumes u: "G \<union> (L \<union> R) \<union> H = S"
    and a: "G \<inter> (L \<union> R) = {}" and b: "G \<inter> H = {}" and c: "(L \<union> R) \<inter> H = {}"
    and d: "L \<inter> R = {}"
  shows "(G \<union> L = {}) = (S = H \<union> R)"
proof
  assume "G \<union> L = {}"
  then show "S = H \<union> R" using u by auto
next
  assume e: "S = H \<union> R"
  show "G \<union> L = {}"
  proof (rule ccontr)
    assume "G \<union> L \<noteq> {}"
    then obtain x where x: "x \<in> G \<union> L" by auto
    then have "x \<in> S" using u by auto
    then have "x \<in> H \<or> x \<in> R" using e by auto
    then show False using x a b c d by auto
  qed
qed

section \<open>The example pools, evaluated\<close>

lemma demo_alloc_contract: "aligned_alloc_contract demo_alloc"
  by (auto simp: aligned_alloc_contract_def demo_alloc_def word_le_nat_alt)

lemma alloc_size_64_4: "alloc_size 64 4 = 256"
  by (simp add: alloc_size_def total_bytes_def CACHE_LINE_def)

lemma demo_ctor:
  "LockFreeMemoryPool 64 4 demo_alloc demo_world =
     Inr (\<lparr>buffer = 4096, freeList = 4288\<rparr>,
          \<lparr>mem = demo_mem, localCache = (\<lambda>_. nullptr), blocks = [4096 \<mapsto> 256]\<rparr>)"
  by (simp add: LockFreeMemoryPool_def alloc_size_def total_bytes_def CACHE_LINE_def
      demo_alloc_def demo_world_def build_free_list.simps demo_mem_def)

lemma demo_loads:
  "load_ptr demo_mem 4288 = 4224"
  "load_ptr demo_mem 4224 = 4160"
  "load_ptr demo_mem 4160 = 4096"
  "load_ptr demo_mem 4096 = nullptr"
  by (simp_all add: demo_mem_def load_ptr_def store_ptr_def sizeof_FreeNode_def ptr_byte_def upt_rec)

lemma demo_run: "run 64 demo_calls (\<lparr>buffer = 4096, freeList = 4288\<rparr>,
          \<lparr>mem = demo_mem, localCache = (\<lambda>_. nullptr), blocks = [4096 \<mapsto> 256]\<rparr>, {}) \<noteq> None"
  by (simp add: demo_calls_def allocate_def allocate_loop_self demo_loads deallocate_def load_store_same)

lemma demo_run2:
  "run 64 [Allocate 0 0, Allocate 1 2] (\<lparr>buffer = 4096, freeList = 4288\<rparr>,
          \<lparr>mem = demo_mem, localCache = (\<lambda>_. nullptr), blocks = [4096 \<mapsto> 256]\<rparr>, {})
   = Some (\<lparr>buffer = 4096, freeList = 4160\<rparr>,
          \<lparr>mem = demo_mem, localCache = (\<lambda>_. nullptr), blocks = [4096 \<mapsto> 256]\<rparr>, {4224, 4288})"
  by (simp add: allocate_def allocate_loop_self demo_loads)

lemma small_ctor:
  "LockFreeMemoryPool 4 2 demo_alloc demo_world =
     Inr (\<lparr>buffer = 4096, freeList = 4100\<rparr>,
          \<lparr>mem = small_mem, localCache = (\<lambda>_. nullptr), blocks = [4096 \<mapsto> 64]\<rparr>)"
  by (simp add: LockFreeMemoryPool_def alloc_size_def total_bytes_def CACHE_LINE_def
      demo_alloc_def demo_world_def build_free_list.simps small_mem_def)

lemma small_loads:
  "load_ptr small_mem 4100 = 4096"
  "load_ptr small_mem 4096 = 0x100000000000"
  "load_ptr small_mem 0x100000000000 = nullptr"
  by (simp_all add: small_mem_def load_ptr_def store_ptr_def sizeof_FreeNode_def ptr_byte_def upt_rec)

lemma slots_4_2: "slots 4 2 4096 = {4096, 4100}"
proof -
  have "{..<unat (2 :: size_t)} = {0, 1}"
    by auto
  then show ?thesis
    by (simp add: slots_def slot_def)
qed

lemma small_chain:
  "0x100000000000 \<in> chain_nodes small_mem 4100"
proof -
  have "4100 \<in> chain_nodes small_mem 4100"
    by (rule chain_nodes.chain_head) simp
  then have "load_ptr small_mem 4100 \<in> chain_nodes small_mem 4100"
    by (rule chain_nodes.chain_next) (simp add: small_loads)
  then have "4096 \<in> chain_nodes small_mem 4100"
    by (simp add: small_loads)
  then have "load_ptr small_mem 4096 \<in> chain_nodes small_mem 4100"
    by (rule chain_nodes.chain_next) (simp add: small_loads)
  then show ?thesis
    by (simp add: small_loads)
qed

lemma small_run1:
  "run 4 [Allocate 0 0] (\<lparr>buffer = 4096, freeList = 4100\<rparr>,
          \<lparr>mem = small_mem, localCache = (\<lambda>_. nullptr), blocks = [4096 \<mapsto> 64]\<rparr>, {})
   = Some (\<lparr>buffer = 4096, freeList = 4096\<rparr>,
          \<lparr>mem = small_mem, localCache = (\<lambda>_. nullptr), blocks = [4096 \<mapsto> 64]\<rparr>, {4100})"
  by (simp add: allocate_def allocate_loop_self small_loads)

lemma small_chain_before: "0x100000000000 \<in> chain_nodes small_mem 4096"
proof -
  have "4096 \<in> chain_nodes small_mem 4096"
    by (rule chain_nodes.chain_head) simp
  then have "load_ptr small_mem 4096 \<in> chain_nodes small_mem 4096"
    by (rule chain_nodes.chain_next) (simp add: small_loads)
  then show ?thesis
    by (simp add: small_loads)
qed

lemma small_chain_after: "chain_nodes (store_ptr small_mem 4100 nullptr) 4096 = {4096}"
proof -
  have "load_ptr (store_ptr small_mem 4100 nullptr) 4096 = nullptr"
    by (simp add: small_mem_def load_ptr_def store_ptr_def sizeof_FreeNode_def ptr_byte_def upt_rec)
  then have "is_chain (store_ptr small_mem 4100 nullptr) 4096 [4096]"
    by simp
  from chain_nodes_is_chain [OF this] show ?thesis
    by simp
qed

lemma demo_run4:
  "run 64 [Allocate 0 0, Allocate 2 1, Allocate 0 0, Allocate 3 0]
      (\<lparr>buffer = 4096, freeList = 4288\<rparr>,
       \<lparr>mem = demo_mem, localCache = (\<lambda>_. nullptr), blocks = [4096 \<mapsto> 256]\<rparr>, {})
   = Some (\<lparr>buffer = 4096, freeList = nullptr\<rparr>,
       \<lparr>mem = demo_mem, localCache = (\<lambda>_. nullptr), blocks = [4096 \<mapsto> 256]\<rparr>,
       {4096, 4160, 4224, 4288})"
  by (auto simp: allocate_def allocate_loop_self demo_loads)

lemma slots_64_4: "slots 64 4 4096 = {4096, 4160, 4224, 4288}"
proof -
  have "{..<unat (4 :: size_t)} = {0, 1, 2, 3}"
    by auto
  then show ?thesis
    by (simp add: slots_def slot_def)
qed

lemma small_next_after: "load_ptr (store_ptr small_mem 4100 nullptr) 4096 = nullptr"
  by (simp add: small_mem_def load_ptr_def store_ptr_def sizeof_FreeNode_def ptr_byte_def upt_rec)

lemma small_run2:
  "run 4 [Allocate 0 0, Allocate 2 0] (\<lparr>buffer = 4096, freeList = 4100\<rparr>,
          \<lparr>mem = small_mem, localCache = (\<lambda>_. nullptr), blocks = [4096 \<mapsto> 64]\<rparr>, {})
   = Some (\<lparr>buffer = 4096, freeList = 0x100000000000\<rparr>,
          \<lparr>mem = small_mem, localCache = (\<lambda>_. nullptr), blocks = [4096 \<mapsto> 64]\<rparr>, {4096, 4100})"
  by (simp add: allocate_def allocate_loop_self small_loads)


section \<open>The claims\<close>

text \<open>
  Claim C1, the per-slot partition, is broken by the code for an element type smaller than
  a pointer. For \<^verbatim>\<open>LockFreeMemoryPool<int, 2>\<close> (4-byte slots at 4096 and 4100) the
  constructor's two 8-byte node writes overlap: the write at slot 1 replaces the upper half
  of the \<^verbatim>\<open>next\<close> field of slot 0. Right after construction, before any call, the nodes on
  the global free list are 4100, 4096 and the address \<open>0x100000000000\<close>, which is no slot:
  the three sets are not a partition of the slot addresses.
\<close>

theorem int_pool_partition_broken:
  "case LockFreeMemoryPool 4 2 demo_alloc demo_world of
     Inl e \<Rightarrow> False
   | Inr (p0, w1) \<Rightarrow>
       run 4 [] (p0, w1, {}) = Some (p0, w1, {}) \<and>
       0x100000000000 \<in> free_global p0 w1 \<and>
       0x100000000000 \<notin> slots 4 2 (buffer p0) \<and>
       free_global p0 w1 \<union> (\<Union>t. free_local w1 t) \<union> {} \<noteq> slots 4 2 (buffer p0)"
proof -
  have "0x100000000000 \<notin> slots 4 2 4096"
    by (simp add: slots_4_2)
  with small_chain show ?thesis
    by (auto simp: small_ctor free_global_def)
qed

text \<open>
  Where a slot can hold a free node the code does keep the partition. Take a pool whose
  element size is at least \<^verbatim>\<open>sizeof(FreeNode)\<close> and whose \<open>poolSize\<close> slots fit in the block the
  constructor requested, constructed in a process where no thread has cached anything yet,
  and any sequence of calls in which every \<^verbatim>\<open>deallocate\<close> argument was returned by
  \<^verbatim>\<open>allocate\<close> before and has not been deallocated since (callers write only into slots
  they hold). After each prefix of the sequence the slot addresses on the global free
  list, those on some thread's cache and those in use are together exactly the slot
  addresses of the pool, and no address is in two of these sets or on two caches.
\<close>

theorem slot_partition:
  assumes sz: "sizeof_FreeNode \<le> sizeofT"
    and fit: "unat poolSize * unat sizeofT \<le> unat (alloc_size sizeofT poolSize)"
    and al: "aligned_alloc_contract al"
    and fresh: "localCache w0 = (\<lambda>_. nullptr)"
    and ctor: "LockFreeMemoryPool sizeofT poolSize al w0 = Inr (p0, w1)"
    and valid: "run sizeofT calls (p0, w1, {}) \<noteq> None"
  shows "\<exists>p w held. run sizeofT (take n calls) (p0, w1, {}) = Some (p, w, held) \<and>
           free_global p w \<union> (\<Union>t. free_local w t) \<union> held = slots sizeofT poolSize (buffer p0) \<and>
           free_global p w \<inter> (\<Union>t. free_local w t) = {} \<and>
           free_global p w \<inter> held = {} \<and>
           (\<Union>t. free_local w t) \<inter> held = {} \<and>
           (\<forall>t t'. t \<noteq> t' \<longrightarrow> free_local w t \<inter> free_local w t' = {}) \<and>
           card (slots sizeofT poolSize (buffer p0)) = unat poolSize"
proof -
  let ?S = "slots sizeofT poolSize (buffer p0)"
  note f = ctor_fit [OF fit al ctor]
  note inv0 = ctor_inv [OF sz fit al fresh ctor]
  have sep: "separated sizeofT ?S"
    by (rule slots_separated [OF f(1) sz f(2)])
  from run_prefix [OF valid, of n] obtain p w held
    where r: "run sizeofT (take n calls) (p0, w1, {}) = Some (p, w, held)"
    by (metis prod_cases3)
  from run_inv [OF sep sz inv0 r] obtain gs cs where inv: "pool_inv ?S p w held gs cs"
    by blast
  from r pool_inv_sets(1-5) [OF inv] card_slots [OF f(1) sz] show ?thesis
    by blast
qed

theorem slot_partition_witness:
  "\<exists>p0 w1. LockFreeMemoryPool 64 4 demo_alloc demo_world = Inr (p0, w1) \<and>
     run 64 demo_calls (p0, w1, {}) \<noteq> None \<and>
     (\<exists>p w held. run 64 (take 4 demo_calls) (p0, w1, {}) = Some (p, w, held) \<and>
           free_global p w \<union> (\<Union>t. free_local w t) \<union> held = slots 64 4 (buffer p0) \<and>
           free_global p w \<inter> (\<Union>t. free_local w t) = {} \<and>
           free_global p w \<inter> held = {} \<and>
           (\<Union>t. free_local w t) \<inter> held = {} \<and>
           card (slots 64 4 (buffer p0)) = 4)"
proof -
  have 1: "sizeof_FreeNode \<le> (64 :: size_t)"
    by (simp add: sizeof_FreeNode_def)
  have 2: "unat (4 :: size_t) * unat (64 :: size_t) \<le> unat (alloc_size 64 4)"
    by (simp add: alloc_size_64_4)
  have 3: "localCache demo_world = (\<lambda>_. nullptr)"
    by (simp add: demo_world_def)
  from slot_partition [OF 1 2 demo_alloc_contract 3 demo_ctor demo_run, of 4]
  show ?thesis
    using demo_ctor demo_run by auto
qed

text \<open>
  Claim C2, exhaustion exactness, is broken by the code for an element type smaller than a
  pointer. For \<^verbatim>\<open>LockFreeMemoryPool<int, 2>\<close>, freshly constructed, the first two \<^verbatim>\<open>allocate\<close>
  calls return 4100 and 4096; after them the pool is exhausted, but \<^verbatim>\<open>freeList\<close> is the
  address \<open>0x100000000000\<close> that the overlapping node writes left in the \<^verbatim>\<open>next\<close> field of
  slot 0, not \<^verbatim>\<open>nullptr\<close>. The third call therefore enters its loop and reads
  \<^verbatim>\<open>head->next\<close> at that address: on this model, where every address can be read, it
  returns the address; it does not return \<^verbatim>\<open>nullptr\<close>.
\<close>

theorem int_pool_exhaustion_not_null:
  "case LockFreeMemoryPool 4 2 demo_alloc demo_world of
     Inl e \<Rightarrow> False
   | Inr (p0, w1) \<Rightarrow>
       (let (rs, p, w) = allocate_seq [(0, 0), (0, 0)] p0 w1
        in rs = [4100, 4096] \<and>
           localCache w 0 = nullptr \<and> freeList p = 0x100000000000 \<and>
           fst (allocate 0 0 p w) = 0x100000000000)"
  by (simp add: small_ctor allocate_def allocate_loop_self small_loads)

text \<open>
  Where a slot can hold a free node the code does exhaust exactly. For a pool whose element
  size is at least \<^verbatim>\<open>sizeof(FreeNode)\<close> and whose slots fit in the requested block, freshly
  constructed in a process where no thread has cached anything: the first \<open>poolSize\<close> calls
  of \<^verbatim>\<open>allocate\<close>, by any threads and with any number of spurious compare-exchange failures,
  return the slot addresses from the last slot down to the first; these are non-null,
  pairwise distinct, and each slot lies inside the storage block; the next call returns
  \<^verbatim>\<open>nullptr\<close>.
\<close>

theorem exhaustion_exactness:
  assumes sz: "sizeof_FreeNode \<le> sizeofT"
    and fit: "unat poolSize * unat sizeofT \<le> unat (alloc_size sizeofT poolSize)"
    and al: "aligned_alloc_contract al"
    and fresh: "localCache w0 = (\<lambda>_. nullptr)"
    and ctor: "LockFreeMemoryPool sizeofT poolSize al w0 = Inr (p0, w1)"
    and len: "length calls = unat poolSize"
  shows "let (rs, p, w) = allocate_seq calls p0 w1
         in rs = rev (map (slot sizeofT (buffer p0)) [0..<unat poolSize]) \<and>
            length rs = unat poolSize \<and> nullptr \<notin> set rs \<and> distinct rs \<and>
            (\<forall>r\<in>set rs. unat (buffer p0) \<le> unat r \<and>
               unat r + unat sizeofT \<le> unat (buffer p0) + unat (alloc_size sizeofT poolSize)) \<and>
            fst (allocate t k p w) = nullptr"
proof -
  let ?S = "slots sizeofT poolSize (buffer p0)"
  let ?L = "rev (map (slot sizeofT (buffer p0)) [0..<unat poolSize])"
  note f = ctor_fit [OF fit al ctor]
  note inv = ctor_inv [OF sz fit al fresh ctor]
  have sep: "separated sizeofT ?S"
    by (rule slots_separated [OF f(1) sz f(2)])
  have ch: "is_chain (mem w1) (freeList p0) ?L"
    by (rule pool_invD(1) [OF inv])
  have c1: "localCache w1 = (\<lambda>_. nullptr)"
    using ctor_result [OF ctor] fresh by simp
  have seq: "allocate_seq calls p0 w1 = (?L, p0\<lparr>freeList := nullptr\<rparr>, w1)"
    using ch c1 len by (intro allocate_seq_global) simp_all
  have setL: "set ?L = ?S"
    by (auto simp: slots_def)
  have "nullptr \<notin> set ?L"
    using sep unfolding setL by (simp add: separated_def)
  moreover have "distinct ?L"
    by (rule pool_invD(3) [OF inv])
  moreover have "unat (buffer p0) \<le> unat r \<and>
      unat r + unat sizeofT \<le> unat (buffer p0) + unat (alloc_size sizeofT poolSize)"
    if "r \<in> set ?L" for r
  proof -
    from that obtain i where i: "i < unat poolSize" "r = slot sizeofT (buffer p0) i"
      by auto
    from i(1) have "Suc i * unat sizeofT \<le> unat poolSize * unat sizeofT"
      by (intro mult_le_mono1) simp
    with fit i slot_in_block [OF f(1) sz i(1)] show ?thesis
      by simp
  qed
  moreover have "fst (allocate t k (p0\<lparr>freeList := nullptr\<rparr>) w1) = nullptr"
    using c1 by (simp add: allocate_exhausted)
  ultimately show ?thesis
    unfolding seq by simp
qed

theorem exhaustion_exactness_witness:
  "case LockFreeMemoryPool 64 4 demo_alloc demo_world of
     Inl e \<Rightarrow> False
   | Inr (p0, w1) \<Rightarrow>
       (let (rs, p, w) = allocate_seq [(0, 0), (1, 2), (0, 1), (2, 0)] p0 w1
        in rs = [4288, 4224, 4160, 4096] \<and> fst (allocate 1 0 p w) = nullptr)"
proof -
  have a: "demo_alloc CACHE_LINE (alloc_size 64 4) = 4096"
    by (simp add: alloc_size_64_4 demo_alloc_def CACHE_LINE_def)
  then obtain p0 w1 where ctor: "LockFreeMemoryPool 64 4 demo_alloc demo_world = Inr (p0, w1)"
    using ctor_succeeds [of demo_alloc 64 4 demo_world] by auto
  have b: "buffer p0 = 4096"
    using ctor_result [OF ctor] a by simp
  have "sizeof_FreeNode \<le> (64 :: size_t)"
    by (simp add: sizeof_FreeNode_def)
  moreover have "unat (4 :: size_t) * unat (64 :: size_t) \<le> unat (alloc_size 64 4)"
    by (simp add: alloc_size_64_4)
  moreover have "localCache demo_world = (\<lambda>_. nullptr)"
    by (simp add: demo_world_def)
  moreover have "length [(0, 0), (1, 2), (0, 1), (2 :: nat, 0 :: nat)] = unat (4 :: size_t)"
    by simp
  ultimately show ?thesis
    using exhaustion_exactness [OF _ _ demo_alloc_contract _ ctor, of "[(0, 0), (1, 2), (0, 1), (2, 0)]" 1 0]
    by (simp add: ctor b slot_def upt_rec split: prod.splits)
qed

text \<open>
  Claim C3, reuse after free in last-in first-out order. When a thread deallocates \<open>a1\<close> and
  then \<open>a2\<close> (both non-null, as every pointer that \<^verbatim>\<open>allocate\<close> hands out is), its next two
  \<^verbatim>\<open>allocate\<close> calls return \<open>a2\<close> and then \<open>a1\<close>, whatever the pool, the memory and the number
  of spurious compare-exchange failures, and the pool object (so the global free list head)
  is as before. In general the address a thread has just deallocated is what its next
  \<^verbatim>\<open>allocate\<close> returns, and nothing is taken from the global free list.
\<close>

theorem lifo_reuse_after_free:
  assumes "a1 \<noteq> nullptr" and "a2 \<noteq> nullptr"
  shows "(let (p1, w1) = deallocate t a1 p w;
              (p2, w2) = deallocate t a2 p1 w1;
              (r1, p3, w3) = allocate t k1 p2 w2;
              (r2, p4, w4) = allocate t k2 p3 w3
          in r1 = a2 \<and> r2 = a1 \<and> p4 = p)
       \<and> (let (p1, w1) = deallocate t a1 p w;
               (r, p2, w2) = allocate t k p1 w1
          in r = a1 \<and> p2 = p)"
  using assms
  by (simp add: deallocate_def allocate_cached load_store_same)

theorem lifo_reuse_after_free_witness:
  "let w = \<lparr>mem = (\<lambda>_. 0), localCache = (\<lambda>_. nullptr), blocks = Map.empty\<rparr>;
       p = \<lparr>buffer = 4096, freeList = nullptr\<rparr>;
       (p1, w1) = deallocate 0 4096 p w;
       (p2, w2) = deallocate 0 4160 p1 w1;
       (r1, p3, w3) = allocate 0 0 p2 w2;
       (r2, p4, w4) = allocate 0 1 p3 w3
   in r1 = 4160 \<and> r2 = 4096 \<and> p4 = p"
  using lifo_reuse_after_free [of 4096 4160 0 "\<lparr>buffer = 4096, freeList = nullptr\<rparr>"
      "\<lparr>mem = (\<lambda>_. 0), localCache = (\<lambda>_. nullptr), blocks = Map.empty\<rparr>" 0 1 0]
  by (simp add: Let_def)



text \<open>
  Claim C5, the frame of \<^verbatim>\<open>deallocate\<close>, is broken by the code for an element type smaller
  than a pointer. For \<^verbatim>\<open>LockFreeMemoryPool<int, 2>\<close>, after one \<^verbatim>\<open>allocate\<close> (which returns
  4100, so that 4096 is the head of the global free list), \<^verbatim>\<open>deallocate(4100)\<close> writes eight
  bytes at 4100 and so replaces the upper half of the \<^verbatim>\<open>next\<close> field of the node at 4096:
  that field changes from \<open>0x100000000000\<close> to null, and the global free chain with it.
\<close>

theorem int_pool_deallocate_breaks_frame:
  "case LockFreeMemoryPool 4 2 demo_alloc demo_world of
     Inl e \<Rightarrow> False
   | Inr (p0, w1) \<Rightarrow>
       (case run 4 [Allocate 0 0] (p0, w1, {}) of
          None \<Rightarrow> False
        | Some (p, w, held) \<Rightarrow>
            held = {4100} \<and> freeList p = 4096 \<and>
            (let (p', w') = deallocate 0 4100 p w
             in load_ptr (mem w) 4096 = 0x100000000000 \<and>
                load_ptr (mem w') 4096 = nullptr \<and>
                free_global p' w' \<noteq> free_global p w))"
proof -
  have "(0x100000000000 :: addr) \<notin> {4096}"
    by simp
  then have "0x100000000000 \<notin> chain_nodes (store_ptr small_mem 4100 nullptr) 4096"
    by (simp add: small_chain_after)
  with small_chain_before
  have "chain_nodes (store_ptr small_mem 4100 nullptr) 4096 \<noteq> chain_nodes small_mem 4096"
    by blast
  then show ?thesis
    by (simp add: small_ctor small_run1 deallocate_def free_global_def small_loads
        small_next_after del: run.simps)
qed

text \<open>
  Where a slot can hold a free node the code does keep the frame. Take a pool whose element
  size is at least \<^verbatim>\<open>sizeof(FreeNode)\<close> and whose slots fit in the requested block, constructed
  in a process where no thread has cached anything yet. In every state it reaches by a
  sequence of calls that respects the caller's contract, and for every slot \<open>ptr\<close> that is
  in use there: \<^verbatim>\<open>deallocate(ptr)\<close> by thread \<open>t\<close> leaves the pool object (the global free list
  head) as it is, leaves the set of nodes on the global free list and the \<^verbatim>\<open>next\<close> field of
  each of them as they are, changes no byte of memory outside the slot \<open>ptr\<close>, no other
  thread's cache and no block. And whatever calls follow, the global free list never holds
  a node it did not hold before.
\<close>

theorem deallocate_frame:
  assumes sz: "sizeof_FreeNode \<le> sizeofT"
    and fit: "unat poolSize * unat sizeofT \<le> unat (alloc_size sizeofT poolSize)"
    and al: "aligned_alloc_contract al"
    and fresh: "localCache w0 = (\<lambda>_. nullptr)"
    and ctor: "LockFreeMemoryPool sizeofT poolSize al w0 = Inr (p0, w1)"
    and reach: "run sizeofT calls (p0, w1, {}) = Some (p, w, held)"
    and pre: "ptr \<in> held"
  shows "let (p', w') = deallocate t ptr p w
         in p' = p \<and>
            free_global p' w' = free_global p w \<and>
            (\<forall>a\<in>free_global p w. load_ptr (mem w') a = load_ptr (mem w) a) \<and>
            (\<forall>x. sizeofT \<le> x - ptr \<longrightarrow> mem w' x = mem w x) \<and>
            (\<forall>t'. t' \<noteq> t \<longrightarrow> localCache w' t' = localCache w t') \<and>
            blocks w' = blocks w \<and>
            (\<forall>calls' p'' w'' held''.
               run sizeofT calls' (p', w', held - {ptr}) = Some (p'', w'', held'') \<longrightarrow>
               free_global p'' w'' \<subseteq> free_global p w)"
proof -
  let ?S = "slots sizeofT poolSize (buffer p0)"
  let ?m = "store_ptr (mem w) ptr (localCache w t)"
  let ?w = "w\<lparr>mem := ?m, localCache := (localCache w)(t := ptr)\<rparr>"
  note f = ctor_fit [OF fit al ctor]
  note inv0 = ctor_inv [OF sz fit al fresh ctor]
  have sep: "separated sizeofT ?S"
    by (rule slots_separated [OF f(1) sz f(2)])
  from run_inv [OF sep sz inv0 reach] obtain gs cs where inv: "pool_inv ?S p w held gs cs"
    by blast
  have d: "deallocate t ptr p w = (p, ?w)"
    by (simp add: deallocate_def)
  from pre have st: "step sizeofT (Deallocate t ptr) (p, w, held) = Some (p, ?w, held - {ptr})"
    by (simp add: d)
  from step_inv [OF sep sz inv st] obtain gs' cs'
    where inv': "pool_inv ?S p ?w (held - {ptr}) gs' cs'"
    by blast
  have g: "free_global p w = set gs"
    by (rule pool_inv_sets(6) [OF inv])
  from pre pool_inv_subset(3) [OF inv] have pS: "ptr \<in> ?S" by blast
  have keep: "load_ptr ?m a = load_ptr (mem w) a" if "a \<in> set gs" for a
  proof -
    from that pre pool_inv_subset(1) [OF inv] have "a \<in> ?S" "a \<noteq> ptr" by auto
    with sep sz pS show ?thesis
      by (simp add: store_ptr_separated)
  qed
  have "is_chain ?m (freeList p) gs"
    using pool_invD(1) [OF inv] keep by (subst is_chain_cong [of gs ?m "mem w"]) auto
  then have g': "free_global p ?w = set gs"
    by (simp add: free_global_def chain_nodes_is_chain)
  have outside: "?m x = mem w x" if "sizeofT \<le> x - ptr" for x
  proof -
    from that sz have "\<not> x - ptr < sizeof_FreeNode"
      by (simp add: word_le_nat_alt word_less_nat_alt)
    then show ?thesis by (rule store_ptr_other)
  qed
  have later: "free_global p'' w'' \<subseteq> free_global p w"
    if "run sizeofT calls' (p, ?w, held - {ptr}) = Some (p'', w'', held'')"
    for calls' p'' w'' held''
  proof -
    from run_inv [OF sep sz inv' that] obtain gs'' cs''
      where i: "pool_inv ?S p'' w'' held'' gs'' cs''" "set gs'' \<subseteq> set gs'"
      by blast
    from pool_inv_sets(6) [OF inv'] g' have "set gs' = set gs" by simp
    with i pool_inv_sets(6) [OF i(1)] g show ?thesis by simp
  qed
  have "\<forall>calls' p'' w'' held''.
          run sizeofT calls' (p, ?w, held - {ptr}) = Some (p'', w'', held'') \<longrightarrow>
          free_global p'' w'' \<subseteq> free_global p w"
    using later by blast
  moreover have "\<forall>a\<in>free_global p w. load_ptr (mem ?w) a = load_ptr (mem w) a"
    using keep g by simp
  moreover have "\<forall>x. sizeofT \<le> x - ptr \<longrightarrow> mem ?w x = mem w x"
    using outside by simp
  moreover have "free_global p ?w = free_global p w"
    using g g' by simp
  ultimately show ?thesis
    unfolding d by simp
qed

theorem deallocate_frame_witness:
  "\<exists>p0 w1 p w held.
     LockFreeMemoryPool 64 4 demo_alloc demo_world = Inr (p0, w1) \<and>
     run 64 [Allocate 0 0, Allocate 1 2] (p0, w1, {}) = Some (p, w, held) \<and>
     4288 \<in> held \<and>
     (let (p', w') = deallocate 1 4288 p w
      in p' = p \<and> free_global p' w' = free_global p w \<and> blocks w' = blocks w)"
proof -
  have 1: "sizeof_FreeNode \<le> (64 :: size_t)"
    by (simp add: sizeof_FreeNode_def)
  have 2: "unat (4 :: size_t) * unat (64 :: size_t) \<le> unat (alloc_size 64 4)"
    by (simp add: alloc_size_64_4)
  have 3: "localCache demo_world = (\<lambda>_. nullptr)"
    by (simp add: demo_world_def)
  have 4: "(4288 :: addr) \<in> {4224, 4288}"
    by simp
  from deallocate_frame [OF 1 2 demo_alloc_contract 3 demo_ctor demo_run2 4, of 1]
  show ?thesis
    using demo_ctor demo_run2 by (auto simp: Let_def split: prod.splits)
qed

text \<open>
  Claim C6, the shape of error handling, is broken by the code for an element type smaller
  than a pointer: exhaustion is not signalled by the null result. For
  \<^verbatim>\<open>LockFreeMemoryPool<int, 2>\<close>, after two \<^verbatim>\<open>allocate\<close> calls every slot of the pool is in
  use, yet the next \<^verbatim>\<open>allocate\<close> does not return \<^verbatim>\<open>nullptr\<close>: it follows the address
  \<open>0x100000000000\<close> left in \<^verbatim>\<open>freeList\<close> and, on this model where every address can be read,
  returns it, an address that is no slot of the pool.
\<close>

theorem int_pool_exhausted_unsignalled:
  "case LockFreeMemoryPool 4 2 demo_alloc demo_world of
     Inl e \<Rightarrow> False
   | Inr (p0, w1) \<Rightarrow>
       (case run 4 [Allocate 0 0, Allocate 2 0] (p0, w1, {}) of
          None \<Rightarrow> False
        | Some (p, w, held) \<Rightarrow>
            held = slots 4 2 (buffer p0) \<and>
            fst (allocate 3 0 p w) \<noteq> nullptr \<and>
            fst (allocate 3 0 p w) \<notin> slots 4 2 (buffer p0))"
  by (simp add: small_ctor small_run2 slots_4_2 allocate_def allocate_loop_self small_loads
      del: run.simps)

text \<open>
  What the code does achieve. Construction fails, with \<^verbatim>\<open>std::bad_alloc\<close>, exactly
  when \<^verbatim>\<open>aligned_alloc\<close> returns null for the requested block. \<^verbatim>\<open>allocate\<close> ends for every
  number of spurious compare-exchange failures; it returns \<^verbatim>\<open>nullptr\<close> exactly when the
  calling thread's cache pointer and \<^verbatim>\<open>freeList\<close> are both null, and then leaves the pool
  and the world as they were.
\<close>

theorem error_handling_shape:
  "(LockFreeMemoryPool sizeofT poolSize al w = Inl BadAlloc)
     = (al CACHE_LINE (alloc_size sizeofT poolSize) = nullptr) \<and>
   (\<exists>p w'. LockFreeMemoryPool sizeofT poolSize al w = Inr (p, w'))
     = (al CACHE_LINE (alloc_size sizeofT poolSize) \<noteq> nullptr) \<and>
   (fst (allocate t k p w) = nullptr) = (localCache w t = nullptr \<and> freeList p = nullptr) \<and>
   (fst (allocate t k p w) = nullptr) = (allocate t k p w = (nullptr, p, w))"
proof -
  have "(fst (allocate t k p w) = nullptr) = (allocate t k p w = (nullptr, p, w))"
    by (cases "localCache w t = nullptr"; cases "freeList p = nullptr")
       (auto simp: allocate_cached allocate_global allocate_exhausted)
  moreover have "(LockFreeMemoryPool sizeofT poolSize al w = Inl BadAlloc)
     = (al CACHE_LINE (alloc_size sizeofT poolSize) = nullptr)"
    by (auto simp: LockFreeMemoryPool_def Let_def split: prod.splits)
  moreover have "(\<exists>p w'. LockFreeMemoryPool sizeofT poolSize al w = Inr (p, w'))
     = (al CACHE_LINE (alloc_size sizeofT poolSize) \<noteq> nullptr)"
    by (auto simp: LockFreeMemoryPool_def Let_def split: prod.splits)
  ultimately show ?thesis
    using allocate_null_iff [of t k p w] by blast
qed

theorem error_handling_shape_witness:
  "LockFreeMemoryPool 64 4 (\<lambda>alignment n. nullptr) demo_world = Inl BadAlloc \<and>
   (\<exists>p w'. LockFreeMemoryPool 64 4 demo_alloc demo_world = Inr (p, w')) \<and>
   allocate 0 3 \<lparr>buffer = 4096, freeList = nullptr\<rparr> demo_world
     = (nullptr, \<lparr>buffer = 4096, freeList = nullptr\<rparr>, demo_world)"
proof -
  have "localCache demo_world 0 = nullptr"
    by (simp add: demo_world_def)
  moreover have "demo_alloc CACHE_LINE (alloc_size 64 4) \<noteq> nullptr"
    by (simp add: alloc_size_64_4 demo_alloc_def CACHE_LINE_def)
  ultimately show ?thesis
    using error_handling_shape [of 64 4 "\<lambda>alignment n. nullptr" demo_world 0 3
        "\<lparr>buffer = 4096, freeList = nullptr\<rparr>"]
      error_handling_shape [of 64 4 demo_alloc demo_world 0 3
        "\<lparr>buffer = 4096, freeList = nullptr\<rparr>"]
    by simp
qed

text \<open>
  And where a slot can hold a free node, the null result is tied to exhaustion: in every
  state such a pool reaches, \<^verbatim>\<open>allocate\<close> by thread \<open>t\<close> returns \<^verbatim>\<open>nullptr\<close> exactly when no slot
  is on the global free list or on \<open>t\<close>'s cache, that is when every slot is in use or on
  another thread's cache; in particular when every slot is in use.
\<close>

theorem exhaustion_signalled:
  assumes sz: "sizeof_FreeNode \<le> sizeofT"
    and fit: "unat poolSize * unat sizeofT \<le> unat (alloc_size sizeofT poolSize)"
    and al: "aligned_alloc_contract al"
    and fresh: "localCache w0 = (\<lambda>_. nullptr)"
    and ctor: "LockFreeMemoryPool sizeofT poolSize al w0 = Inr (p0, w1)"
    and reach: "run sizeofT calls (p0, w1, {}) = Some (p, w, held)"
  shows "(fst (allocate t k p w) = nullptr) = (free_global p w \<union> free_local w t = {}) \<and>
         (fst (allocate t k p w) = nullptr)
           = (slots sizeofT poolSize (buffer p0) = held \<union> (\<Union>t'\<in>- {t}. free_local w t')) \<and>
         (held = slots sizeofT poolSize (buffer p0) \<longrightarrow> fst (allocate t k p w) = nullptr)"
proof -
  let ?S = "slots sizeofT poolSize (buffer p0)"
  let ?R = "\<Union>t'\<in>- {t}. free_local w t'"
  note f = ctor_fit [OF fit al ctor]
  have sep: "separated sizeofT ?S"
    by (rule slots_separated [OF f(1) sz f(2)])
  from run_inv [OF sep sz ctor_inv [OF sz fit al fresh ctor] reach]
  obtain gs cs where inv: "pool_inv ?S p w held gs cs"
    by blast
  note s = pool_inv_sets [OF inv]
  have n: "(fst (allocate t k p w) = nullptr) = (free_global p w \<union> free_local w t = {})"
    by (auto simp: allocate_null_iff free_global_def free_local_def chain_nodes_empty_iff)
  have u: "(\<Union>t'. free_local w t') = free_local w t \<union> ?R"
    by auto
  have d: "free_local w t \<inter> ?R = {}"
    using s(5) by auto
  have e: "(free_global p w \<union> free_local w t = {}) = (?S = held \<union> ?R)"
    by (rule partition_rest [OF s(1) [unfolded u] s(2) [unfolded u] s(3) s(4) [unfolded u] d])
  have h: "free_global p w \<union> free_local w t = {}" if "held = ?S"
    unfolding e using that s(1) [unfolded u] s(4) [unfolded u] by auto
  show ?thesis
    using n e h by simp
qed

theorem exhaustion_signalled_witness:
  "\<exists>p0 w1 p w held.
     LockFreeMemoryPool 64 4 demo_alloc demo_world = Inr (p0, w1) \<and>
     run 64 [Allocate 0 0, Allocate 2 1, Allocate 0 0, Allocate 3 0] (p0, w1, {}) = Some (p, w, held) \<and>
     held = slots 64 4 (buffer p0) \<and>
     fst (allocate 5 0 p w) = nullptr"
proof -
  have 1: "sizeof_FreeNode \<le> (64 :: size_t)"
    by (simp add: sizeof_FreeNode_def)
  have 2: "unat (4 :: size_t) * unat (64 :: size_t) \<le> unat (alloc_size 64 4)"
    by (simp add: alloc_size_64_4)
  have 3: "localCache demo_world = (\<lambda>_. nullptr)"
    by (simp add: demo_world_def)
  from exhaustion_signalled [OF 1 2 demo_alloc_contract 3 demo_ctor demo_run4, of 5 0]
  show ?thesis
    using demo_ctor demo_run4 by (simp add: slots_64_4 del: run.simps)
qed

text \<open>
  Claim C7, the alignment contract. When the C library keeps the contract of
  \<^verbatim>\<open>aligned_alloc\<close> and construction succeeds, the base address of the pool's block is what
  \<^verbatim>\<open>aligned_alloc(CACHE_LINE, size)\<close> returned, hence a multiple of 64, and the block is recorded
  with the requested size. The requested size is a multiple of 64: it is
  capacity times element size, rounded up to the next multiple of 64, both computed in
  \<^verbatim>\<open>std::size_t\<close>; whenever the slots fit in the requested block (nothing wrapped around) it is
  the exact product rounded up to a multiple of 64.
\<close>

theorem alignment_contract:
  assumes al: "aligned_alloc_contract al"
    and ctor: "LockFreeMemoryPool sizeofT poolSize al w = Inr (p, w')"
  shows "64 dvd unat (buffer p) \<and>
         buffer p = al CACHE_LINE (alloc_size sizeofT poolSize) \<and>
         blocks w' (buffer p) = Some (alloc_size sizeofT poolSize) \<and>
         64 dvd unat (alloc_size sizeofT poolSize) \<and>
         unat (alloc_size sizeofT poolSize) =
           ((unat poolSize * unat sizeofT) mod 2 ^ 64 + 63) div 64 * 64 mod 2 ^ 64 \<and>
         (unat poolSize * unat sizeofT \<le> unat (alloc_size sizeofT poolSize) \<longrightarrow>
            unat (alloc_size sizeofT poolSize) = (unat poolSize * unat sizeofT + 63) div 64 * 64)"
proof -
  note r = ctor_result [OF ctor]
  from al r have "unat CACHE_LINE dvd unat (buffer p)"
    unfolding aligned_alloc_contract_def by metis
  then have "64 dvd unat (buffer p)"
    by (simp add: CACHE_LINE_def)
  moreover have "(64 :: nat) dvd 2 ^ 64"
    by simp
  then have "64 dvd unat (alloc_size sizeofT poolSize)"
    unfolding unat_alloc_size by (intro dvd_mod) simp_all
  ultimately show ?thesis
    using r alloc_size_fit [of poolSize sizeofT] by (simp add: unat_alloc_size unat_total_bytes)
qed

theorem alignment_contract_witness:
  "\<exists>p w'. aligned_alloc_contract demo_alloc \<and>
     LockFreeMemoryPool 24 10 demo_alloc demo_world = Inr (p, w') \<and>
     buffer p = 4096 \<and> 64 dvd unat (buffer p) \<and>
     blocks w' (buffer p) = Some 256 \<and>
     unat (10 :: size_t) * unat (24 :: size_t) \<le> unat (alloc_size 24 10) \<and>
     unat (alloc_size 24 10) = (unat (10 :: size_t) * unat (24 :: size_t) + 63) div 64 * 64"
proof -
  have a: "alloc_size 24 10 = 256"
    by (simp add: alloc_size_def total_bytes_def CACHE_LINE_def)
  then have "demo_alloc CACHE_LINE (alloc_size 24 10) \<noteq> nullptr"
    by (simp add: demo_alloc_def CACHE_LINE_def)
  then obtain p w' where ctor: "LockFreeMemoryPool 24 10 demo_alloc demo_world = Inr (p, w')"
    using ctor_succeeds [of demo_alloc 24 10 demo_world] by auto
  from alignment_contract [OF demo_alloc_contract ctor] show ?thesis
    using ctor demo_alloc_contract by (auto simp: a demo_alloc_def CACHE_LINE_def)
qed

text \<open>
  Claim C8, the cache is shared between pool objects. The cache belongs to the world, indexed
  by the thread only, not to a pool object. So for any two pool objects \<open>p1\<close> and \<open>p2\<close> of the
  same element type and capacity: after thread \<open>t\<close> deallocates a non-null \<open>ptr\<close> through \<open>p1\<close>,
  its next \<^verbatim>\<open>allocate\<close> on \<open>p2\<close> returns \<open>ptr\<close> and leaves \<open>p2\<close> (its global free list) untouched;
  the effect of \<^verbatim>\<open>deallocate\<close> on the world does not depend on the pool object it is called on.
\<close>

theorem cross_instance_cache:
  assumes "ptr \<noteq> nullptr"
  shows "let (p1', w') = deallocate t ptr p1 w;
             (r, p2', w'') = allocate t k p2 w'
         in r = ptr \<and> p2' = p2 \<and> p1' = p1 \<and>
            snd (deallocate t ptr p1 w) = snd (deallocate t ptr p2 w) \<and>
            localCache w' = (localCache w)(t := ptr)"
  using assms by (simp add: deallocate_def allocate_cached)

theorem cross_instance_cache_witness:
  "let p1 = \<lparr>buffer = 4096, freeList = nullptr\<rparr>;
       p2 = \<lparr>buffer = 8192, freeList = 8384\<rparr>;
       (p1', w') = deallocate 0 4160 p1 demo_world;
       (r, p2', w'') = allocate 0 0 p2 w'
   in r = 4160 \<and> p2' = p2"
  using cross_instance_cache [of 4160 0 "\<lparr>buffer = 4096, freeList = nullptr\<rparr>" demo_world 0
      "\<lparr>buffer = 8192, freeList = 8384\<rparr>"]
  by (simp add: Let_def split: prod.splits)




text \<open>
  Claim C10, the bound of the free-node overlay. \<^verbatim>\<open>deallocate(ptr)\<close> writes the eight bytes of
  a \<^verbatim>\<open>next\<close> pointer at \<open>ptr, .., ptr + 7\<close> and nothing else. When the element size is at
  least \<^verbatim>\<open>sizeof(FreeNode)\<close> this stays inside the slot; when it is smaller, the byte at
  \<open>ptr + sizeofT\<close>, the first one past the slot's end, is overwritten. Construction does not
  look at the element size: it succeeds exactly when \<^verbatim>\<open>aligned_alloc\<close> returns a block, and
  its effect on memory is one such eight-byte write at the start of each of the \<open>poolSize\<close>
  slots, in order; after it the eight bytes at the start of the last slot hold the address
  of the slot before it (null for a pool of one slot).
\<close>

theorem free_node_overlay:
  "(\<forall>k<8. mem (snd (deallocate t ptr p w)) (ptr + of_nat k) = ptr_byte (localCache w t) k) \<and>
   (\<forall>x. sizeof_FreeNode \<le> x - ptr \<longrightarrow> mem (snd (deallocate t ptr p w)) x = mem w x) \<and>
   (sizeofT < sizeof_FreeNode \<longrightarrow>
      sizeofT \<le> (ptr + sizeofT) - ptr \<and>
      mem (snd (deallocate t ptr p w)) (ptr + sizeofT) = ptr_byte (localCache w t) (unat sizeofT)) \<and>
   (sizeof_FreeNode \<le> sizeofT \<longrightarrow>
      (\<forall>x. sizeofT \<le> x - ptr \<longrightarrow> mem (snd (deallocate t ptr p w)) x = mem w x)) \<and>
   (\<exists>p' w'. LockFreeMemoryPool sizeofT poolSize al w = Inr (p', w'))
      = (al CACHE_LINE (alloc_size sizeofT poolSize) \<noteq> nullptr) \<and>
   (\<forall>p' w'. LockFreeMemoryPool sizeofT poolSize al w = Inr (p', w') \<longrightarrow>
      mem w' = foldl (link_slot sizeofT (buffer p')) (mem w) [0..<unat poolSize] \<and>
      (poolSize \<noteq> 0 \<longrightarrow>
         (\<forall>k<8. mem w' (slot sizeofT (buffer p') (unat poolSize - 1) + of_nat k) =
            ptr_byte (if unat poolSize = 1 then nullptr
                      else slot sizeofT (buffer p') (unat poolSize - 2)) k)))"
proof -
  have a: "\<forall>k<8. mem (snd (deallocate t ptr p w)) (ptr + of_nat k) = ptr_byte (localCache w t) k"
    by (simp add: deallocate_def store_ptr_at)
  have b: "mem (snd (deallocate t ptr p w)) x = mem w x" if "sizeof_FreeNode \<le> x - ptr" for x
  proof -
    from that have "\<not> x - ptr < sizeof_FreeNode"
      by (simp add: not_less)
    then show ?thesis
      by (simp add: deallocate_def store_ptr_other)
  qed
  have c: "mem (snd (deallocate t ptr p w)) (ptr + sizeofT) = ptr_byte (localCache w t) (unat sizeofT)"
    if "sizeofT < sizeof_FreeNode"
    using that by (simp add: deallocate_def store_ptr_def)
  have d: "mem (snd (deallocate t ptr p w)) x = mem w x"
    if "sizeof_FreeNode \<le> sizeofT" "sizeofT \<le> x - ptr" for x
    using that by (intro b) simp
  have e: "(\<exists>p' w'. LockFreeMemoryPool sizeofT poolSize al w = Inr (p', w'))
      = (al CACHE_LINE (alloc_size sizeofT poolSize) \<noteq> nullptr)"
    by (auto simp: LockFreeMemoryPool_def Let_def split: prod.splits)
  show ?thesis
    using a b c d e ctor_mem(1) ctor_last_slot by (intro conjI) auto
qed

theorem free_node_overlay_witness:
  "(4 :: size_t) < sizeof_FreeNode \<and>
   (4 :: size_t) \<le> (4100 + 4) - 4100 \<and>
   mem (snd (deallocate 0 4100 \<lparr>buffer = 4096, freeList = 4096\<rparr>
         (demo_world\<lparr>localCache := (\<lambda>_. 0x1122334455667788)\<rparr>))) (4100 + 4) = 0x44 \<and>
   (\<exists>p' w'. LockFreeMemoryPool 4 2 demo_alloc demo_world = Inr (p', w'))"
proof -
  have 1: "(4 :: size_t) < sizeof_FreeNode"
    by (simp add: sizeof_FreeNode_def)
  have 2: "demo_alloc CACHE_LINE (alloc_size 4 2) \<noteq> nullptr"
    by (simp add: alloc_size_def total_bytes_def demo_alloc_def CACHE_LINE_def)
  have 3: "ptr_byte 0x1122334455667788 4 = 0x44"
    by (simp add: ptr_byte_def)
  from free_node_overlay [of 0 4100 "\<lparr>buffer = 4096, freeList = 4096\<rparr>"
      "demo_world\<lparr>localCache := (\<lambda>_. 0x1122334455667788)\<rparr>" 4 2 demo_alloc] 1
  have "mem (snd (deallocate 0 4100 \<lparr>buffer = 4096, freeList = 4096\<rparr>
         (demo_world\<lparr>localCache := (\<lambda>_. 0x1122334455667788)\<rparr>))) (4100 + 4)
       = ptr_byte 0x1122334455667788 4"
    by simp
  moreover from free_node_overlay [of 0 4100 "\<lparr>buffer = 4096, freeList = 4096\<rparr>"
      demo_world 4 2 demo_alloc] 2
  have "\<exists>p' w'. LockFreeMemoryPool 4 2 demo_alloc demo_world = Inr (p', w')"
    by blast
  ultimately show ?thesis
    using 1 3 by simp
qed

end
